theory Spec2Isabelle
  imports Main "HOL-Library.Word"
begin

section \<open>filtop: a terminal dashboard for Filebeat statistics\<close>

text \<open>
  The development embeds \<^verbatim>\<open>src/filtop/filtop.go\<close>: the byte formatter, the poll loop
  of \<^verbatim>\<open>dataWorker\<close> with its history buffer, and the render functions that derive the
  displayed values from the last snapshot. Library behaviour the program relies on
  (IEEE 754 double arithmetic, the verbs of \<^verbatim>\<open>fmt\<close>, \<^verbatim>\<open>time.Duration\<close>,
  \<^verbatim>\<open>strings.Repeat\<close>, the table widget) is modelled beside the function that uses it.
\<close>

subsection \<open>Run-time panics\<close>

datatype panic =
    IndexOutOfRange
  | NegativeRepeatCount
  | RepeatCountOverflow
  | MakesliceOutOfRange
  | OutOfMemory

subsection \<open>Decimal output of integers: the verb \<^verbatim>\<open>%d\<close>\<close>

definition digit_char :: "nat \<Rightarrow> char" where
  "digit_char d = ''0123456789'' ! d"

fun sprintf_d :: "nat \<Rightarrow> string" where
  "sprintf_d n = (if n < 10 then [digit_char n] else sprintf_d (n div 10) @ [digit_char (n mod 10)])"

declare sprintf_d.simps [simp del]

definition sprintf_t :: "bool \<Rightarrow> string" where
  "sprintf_t b = (if b then ''true'' else ''false'')"

subsection \<open>IEEE 754 binary64\<close>

text \<open>
  A finite double is its sign, its significand and its exponent: \<open>Finite s m e\<close> stands for
  \<open>(-1)\<^sup>s * m * 2\<^sup>e\<close>. The encoding is the canonical one of the format, \<open>m < 2\<^sup>5\<^sup>3\<close> and
  \<open>-1074 \<le> e \<le> 971\<close>, with \<open>2\<^sup>5\<^sup>2 \<le> m\<close> unless \<open>e = -1074\<close> (subnormals and zero), so
  that equal doubles are equal terms. \<open>Infinity s\<close> is the infinity of sign \<open>s\<close>.
\<close>

datatype float64 = Finite bool nat int | Infinity bool | NaN

fun bitlen :: "nat \<Rightarrow> nat" where
  "bitlen n = (if n = 0 then 0 else Suc (bitlen (n div 2)))"

declare bitlen.simps [simp del]

text \<open>The quotient \<open>a / b\<close> rounded to the nearest integer, ties to the even one.\<close>

definition round_half_even_div :: "nat \<Rightarrow> nat \<Rightarrow> nat" where
  "round_half_even_div a b =
     (let q = a div b; r = a mod b
      in if 2 * r < b then q else if b < 2 * r then q + 1 else if even q then q else q + 1)"

text \<open>\<open>\<lfloor>log\<^sub>2 (a / b)\<rfloor>\<close> for positive \<open>a\<close> and \<open>b\<close>.\<close>

definition floor_log2_ratio :: "nat \<Rightarrow> nat \<Rightarrow> int" where
  "floor_log2_ratio a b =
     (let t = int (bitlen a) - int (bitlen b)
      in if b * 2 ^ nat t \<le> a * 2 ^ nat (- t) then t else t - 1)"

text \<open>
  Round to nearest, ties to even: the double nearest to the exact value \<open>a / b\<close>
  (\<open>b\<close> positive), with sign \<open>s\<close>. Every arithmetic operation of the format is the
  exact operation followed by this rounding.
\<close>

definition round_f64 :: "bool \<Rightarrow> nat \<Rightarrow> nat \<Rightarrow> float64" where
  "round_f64 s a b =
     (if a = 0 then Finite s 0 (- 1074)
      else let k = max (floor_log2_ratio a b - 52) (- 1074);
               m = round_half_even_div (a * 2 ^ nat (- k)) (b * 2 ^ nat k);
               m' = (if m = 2 ^ 53 then 2 ^ 52 else m);
               k' = (if m = 2 ^ 53 then k + 1 else k)
           in if 971 < k' then Infinity s else Finite s m' k')"

definition f64_div :: "float64 \<Rightarrow> float64 \<Rightarrow> float64" where
  "f64_div x y =
     (case x of
        NaN \<Rightarrow> NaN
      | Infinity s \<Rightarrow>
          (case y of NaN \<Rightarrow> NaN | Infinity t \<Rightarrow> NaN | Finite t n f \<Rightarrow> Infinity (s \<noteq> t))
      | Finite s m e \<Rightarrow>
          (case y of
             NaN \<Rightarrow> NaN
           | Infinity t \<Rightarrow> Finite (s \<noteq> t) 0 (- 1074)
           | Finite t n f \<Rightarrow>
               if n = 0 then (if m = 0 then NaN else Infinity (s \<noteq> t))
               else round_f64 (s \<noteq> t) (m * 2 ^ nat (e - f)) (n * 2 ^ nat (f - e))))"

definition f64_mul :: "float64 \<Rightarrow> float64 \<Rightarrow> float64" where
  "f64_mul x y =
     (case x of
        NaN \<Rightarrow> NaN
      | Infinity s \<Rightarrow>
          (case y of
             NaN \<Rightarrow> NaN
           | Infinity t \<Rightarrow> Infinity (s \<noteq> t)
           | Finite t n f \<Rightarrow> if n = 0 then NaN else Infinity (s \<noteq> t))
      | Finite s m e \<Rightarrow>
          (case y of
             NaN \<Rightarrow> NaN
           | Infinity t \<Rightarrow> if m = 0 then NaN else Infinity (s \<noteq> t)
           | Finite t n f \<Rightarrow>
               round_f64 (s \<noteq> t) (m * n * 2 ^ nat (e + f)) (2 ^ nat (- (e + f)))))"

text \<open>Conversions \<^verbatim>\<open>float64(x)\<close> from \<^verbatim>\<open>uint64\<close> and \<^verbatim>\<open>int64\<close>, and of integer constants.\<close>

definition f64_of_nat :: "nat \<Rightarrow> float64" where
  "f64_of_nat n = round_f64 False n 1"

definition f64_of_u64 :: "64 word \<Rightarrow> float64" where
  "f64_of_u64 w = f64_of_nat (unat w)"

definition f64_of_i64 :: "64 word \<Rightarrow> float64" where
  "f64_of_i64 w = round_f64 (sint w < 0) (nat \<bar>sint w\<bar>) 1"

text \<open>
  The verb \<^verbatim>\<open>%.Nf\<close>: the exact decimal expansion of the double, rounded half-even to
  \<open>prec\<close> places; the special values print as \<^verbatim>\<open>NaN\<close>, \<^verbatim>\<open>+Inf\<close> and \<^verbatim>\<open>-Inf\<close>.
\<close>

fun zero_pad :: "nat \<Rightarrow> string \<Rightarrow> string" where
  "zero_pad w s = replicate (w - length s) CHR ''0'' @ s"

definition sprintf_f :: "nat \<Rightarrow> float64 \<Rightarrow> string" where
  "sprintf_f prec x =
     (case x of
        NaN \<Rightarrow> ''NaN''
      | Infinity s \<Rightarrow> (if s then ''-Inf'' else ''+Inf'')
      | Finite s m e \<Rightarrow>
          (let n = round_half_even_div (m * 10 ^ prec * 2 ^ nat e) (2 ^ nat (- e))
           in (if s then ''-'' else '''') @ sprintf_d (n div 10 ^ prec) @
              (if prec = 0 then '''' else ''.'' @ zero_pad prec (sprintf_d (n mod 10 ^ prec)))))"

subsection \<open>formatBytes\<close>

text \<open>
  The loop \<^verbatim>\<open>for n := bytes / unit; n >= unit; n /= unit { div *= unit; exp++ }\<close>.
  \<^verbatim>\<open>n\<close> is a \<^verbatim>\<open>uint64\<close>, \<^verbatim>\<open>div\<close> an \<^verbatim>\<open>int64\<close> whose product wraps, \<^verbatim>\<open>exp\<close> a counter.
\<close>

function formatBytes_loop :: "64 word \<Rightarrow> 64 word \<Rightarrow> nat \<Rightarrow> 64 word \<times> nat" where
  "formatBytes_loop n dv exp =
     (if 1024 \<le> n then formatBytes_loop (n div 1024) (dv * 1024) (Suc exp) else (dv, exp))"
  by pat_completeness auto
termination
proof (relation "measure (\<lambda>(n, dv, exp). unat n)")
  show "wf (measure (\<lambda>(n :: 64 word, dv :: 64 word, exp :: nat). unat n))"
    by simp
next
  fix n dv :: "64 word" and exp :: nat
  assume "1024 \<le> n"
  then have "1024 \<le> unat n"
    by (simp add: word_le_nat_alt)
  then have "unat n div 1024 < unat n"
    by simp
  then show "((n div 1024, dv * 1024, Suc exp), (n, dv, exp))
      \<in> measure (\<lambda>(n, dv, exp). unat n)"
    by (simp add: unat_div)
qed

declare formatBytes_loop.simps [simp del]

text \<open>Indexing a string, \<^verbatim>\<open>s[i]\<close>, panics out of range.\<close>

definition string_index :: "string \<Rightarrow> nat \<Rightarrow> panic + char" where
  "string_index s i = (if i < length s then Inr (s ! i) else Inl IndexOutOfRange)"

definition formatBytes :: "64 word \<Rightarrow> panic + string" where
  "formatBytes bytes =
     (if bytes < 1024 then Inr (sprintf_d (unat bytes) @ '' B'')
      else
        (let (dv, exp) = formatBytes_loop (bytes div 1024) 1024 0
         in case string_index ''KMGTPE'' exp of
              Inl p \<Rightarrow> Inl p
            | Inr c \<Rightarrow>
                Inr (sprintf_f 1 (f64_div (f64_of_u64 bytes) (f64_of_i64 dv)) @
                     '' '' @ [c] @ ''iB'')))"

subsection \<open>The snapshot: \<^verbatim>\<open>FilebeatStats\<close> and \<^verbatim>\<open>Input\<close>\<close>

text \<open>
  The nested anonymous structs of \<^verbatim>\<open>FilebeatStats\<close> are flattened: the field
  \<^verbatim>\<open>Beat.CPU.Total.Time.MS\<close> is \<open>Beat_CPU_Total_Time_MS\<close>. A \<^verbatim>\<open>uint64\<close> is a
  \<open>64 word\<close>, \<^verbatim>\<open>time.Time\<close> a clock reading.
\<close>

type_synonym time = nat

datatype json_value = JNumber float64 | JString string | JBool bool | JNull

record Input =
  ID :: string
  Type :: string
  Device :: string
  Packets :: "64 word"
  Bytes :: "64 word"
  Events :: "64 word"
  Active :: bool
  ArrivalPeriod_Histogram :: "(string \<times> json_value) list"
  ProcessingTime_Histogram :: "(string \<times> json_value) list"
  Throughput_Bytes :: float64
  Throughput_Events :: float64
  Files :: "64 word"

record Module =
  Name :: string
  Enabled :: bool
  Errors :: "64 word"

record BeatStats =
  Beat_CPU_System_Ticks :: "64 word"
  Beat_CPU_System_Time_MS :: "64 word"
  Beat_CPU_Total_Ticks :: "64 word"
  Beat_CPU_Total_Time_MS :: "64 word"
  Beat_CPU_Total_Value :: "64 word"
  Beat_CPU_User_Ticks :: "64 word"
  Beat_CPU_User_Time_MS :: "64 word"
  Beat_Memstats_MemoryAlloc :: "64 word"
  Beat_Memstats_RSS :: "64 word"
  Beat_Info_Uptime_MS :: "64 word"

record LibbeatStats = BeatStats +
  Libbeat_Pipeline_Queue_Filled_Events :: "64 word"
  Libbeat_Pipeline_Queue_MaxEvents :: "64 word"
  Libbeat_Pipeline_Events_Total :: "64 word"
  Libbeat_Pipeline_Events_Dropped :: "64 word"
  Libbeat_Pipeline_Events_Failed :: "64 word"
  Libbeat_Pipeline_Events_Filtered :: "64 word"

record FilebeatStats = LibbeatStats +
  Timestamp :: time
  Filebeat_Harvester_Running :: "64 word"
  Filebeat_Harvester_Open :: "64 word"
  Filebeat_Harvester_Closed :: "64 word"
  Filebeat_Harvester_Started :: "64 word"
  Filebeat_Harvester_Terminated :: "64 word"
  Filebeat_Inputs :: "Input list"
  Filebeat_Modules_List :: "Module list"
  System_Load_Norm_Load1 :: float64
  System_Load_Norm_Load5 :: float64
  System_Load_Norm_Load15 :: float64

subsection \<open>Fetching: \<^verbatim>\<open>fetchStats\<close> and \<^verbatim>\<open>fetchInputs\<close>\<close>

text \<open>
  What \<^verbatim>\<open>client.Get\<close> brings back: a transport error, or a response with its status
  code and its body. The body is given by what \<^verbatim>\<open>json.Decoder.Decode\<close> makes of it for
  the requested type: \<open>None\<close> when it is malformed, the decoded value otherwise.
\<close>

record 'a Response =
  StatusCode :: nat
  Body :: "'a option"

datatype 'a get_result = GetError | GetOk "'a Response"

datatype fetch_error = TransportError | StatusError nat | DecodeError

definition StatusOK :: nat where
  "StatusOK = 200"

text \<open>
  Snapshots live in a store and are handled through pointers, as \<^verbatim>\<open>*FilebeatStats\<close>:
  \<^verbatim>\<open>fetchStats\<close> returns the address of a fresh object.
\<close>

type_synonym addr = nat

record store =
  objs :: "addr \<Rightarrow> FilebeatStats option"
  next_addr :: addr

definition alloc :: "FilebeatStats \<Rightarrow> store \<Rightarrow> addr \<times> store" where
  "alloc v st = (next_addr st, st\<lparr>objs := (objs st)(next_addr st \<mapsto> v), next_addr := Suc (next_addr st)\<rparr>)"

definition fetchStats ::
  "FilebeatStats get_result \<Rightarrow> time \<Rightarrow> store \<Rightarrow> (fetch_error + addr) \<times> store" where
  "fetchStats r now st =
     (case r of
        GetError \<Rightarrow> (Inl TransportError, st)
      | GetOk resp \<Rightarrow>
          if StatusCode resp \<noteq> StatusOK then (Inl (StatusError (StatusCode resp)), st)
          else (case Body resp of
                  None \<Rightarrow> (Inl DecodeError, st)
                | Some stats \<Rightarrow>
                    (let (p, st') = alloc (stats\<lparr>Timestamp := now\<rparr>) st in (Inr p, st'))))"

definition fetchInputs :: "Input list get_result \<Rightarrow> fetch_error + Input list" where
  "fetchInputs r =
     (case r of
        GetError \<Rightarrow> Inl TransportError
      | GetOk resp \<Rightarrow>
          if StatusCode resp \<noteq> StatusOK then Inl (StatusError (StatusCode resp))
          else (case Body resp of None \<Rightarrow> Inl DecodeError | Some inputs \<Rightarrow> Inr inputs))"

subsection \<open>The poll loop: \<^verbatim>\<open>dataWorker\<close>\<close>

definition historySize :: nat where
  "historySize = 30"

text \<open>
  The globals the loop writes, with the store its pointers refer to. What the loop does to
  the outside is a list of effects in the order they happen.
\<close>

record worker =
  heap :: store
  lastStats :: "addr option"
  history :: "addr list"
  refresh :: nat

datatype effect =
    LogStatsError fetch_error
  | LogInputsError fetch_error
  | QueueUpdateDraw
  | Sleep nat

text \<open>What one iteration receives from outside: the two responses and the clock.\<close>

record cycle =
  statsResponse :: "FilebeatStats get_result"
  clock :: time
  inputsResponse :: "Input list get_result"

text \<open>The assignment \<^verbatim>\<open>stats.Filebeat.Inputs = inputs\<close> through the pointer.\<close>

definition set_Inputs :: "addr \<Rightarrow> Input list \<Rightarrow> store \<Rightarrow> store" where
  "set_Inputs p inputs st =
     st\<lparr>objs := (\<lambda>q. if q = p then map_option (\<lambda>v. v\<lparr>Filebeat_Inputs := inputs\<rparr>) (objs st q)
                         else objs st q)\<rparr>"

text \<open>
  \<^verbatim>\<open>history = append(history, stats)\<close>, then \<^verbatim>\<open>history = history[1:]\<close> when the
  length is over \<^verbatim>\<open>historySize\<close>.
\<close>

definition append_history :: "addr list \<Rightarrow> addr \<Rightarrow> addr list" where
  "append_history h p =
     (let h' = h @ [p] in if historySize < length h' then drop 1 h' else h')"

text \<open>One iteration of the \<^verbatim>\<open>for\<close> loop.\<close>

definition dataWorker_cycle :: "cycle \<Rightarrow> worker \<Rightarrow> effect list \<times> worker" where
  "dataWorker_cycle c w =
     (case fetchStats (statsResponse c) (clock c) (heap w) of
        (Inl err, st) \<Rightarrow> ([LogStatsError err, Sleep (refresh w)], w\<lparr>heap := st\<rparr>)
      | (Inr stats, st) \<Rightarrow>
          (let (logged, st') =
                 (case fetchInputs (inputsResponse c) of
                    Inl err \<Rightarrow> ([LogInputsError err], st)
                  | Inr inputs \<Rightarrow> ([], set_Inputs stats inputs st))
           in (logged @ [QueueUpdateDraw, Sleep (refresh w)],
               w\<lparr>heap := st', history := append_history (history w) stats,
                 lastStats := Some stats\<rparr>)))"

text \<open>The loop never returns; \<open>dataWorker\<close> runs its first iterations, one per element.\<close>

fun dataWorker :: "cycle list \<Rightarrow> worker \<Rightarrow> effect list \<times> worker" where
  "dataWorker [] w = ([], w)"
| "dataWorker (c # cs) w =
     (let (es, w') = dataWorker_cycle c w; (es', w'') = dataWorker cs w' in (es @ es', w''))"

text \<open>The state at program start: no snapshot, an empty history, an empty store.\<close>

definition initial_worker :: "nat \<Rightarrow> worker" where
  "initial_worker interval =
     \<lparr>heap = \<lparr>objs = (\<lambda>_. None), next_addr = 0\<rparr>, lastStats = None, history = [],
      refresh = interval\<rparr>"

text \<open>The snapshot a pointer refers to.\<close>

definition deref :: "worker \<Rightarrow> addr option \<Rightarrow> FilebeatStats option" where
  "deref w p = (case p of None \<Rightarrow> None | Some a \<Rightarrow> objs (heap w) a)"

text \<open>Whether the stats request of an iteration succeeds, read off the response.\<close>

definition stats_ok :: "cycle \<Rightarrow> bool" where
  "stats_ok c =
     (case statsResponse c of
        GetError \<Rightarrow> False
      | GetOk resp \<Rightarrow> StatusCode resp = StatusOK \<and> Body resp \<noteq> None)"

text \<open>The newest \<open>historySize\<close> elements of a sequence, in their order.\<close>

definition keep_newest :: "'a list \<Rightarrow> 'a list" where
  "keep_newest xs = drop (length xs - historySize) xs"

text \<open>What the payload \<^verbatim>\<open>{}\<close> decodes to: every field keeps its zero value.\<close>

definition zero_f64 :: float64 where
  "zero_f64 = Finite False 0 (- 1074)"

definition zero_stats :: FilebeatStats where
  "zero_stats =
     \<lparr>Beat_CPU_System_Ticks = 0, Beat_CPU_System_Time_MS = 0, Beat_CPU_Total_Ticks = 0,
      Beat_CPU_Total_Time_MS = 0, Beat_CPU_Total_Value = 0, Beat_CPU_User_Ticks = 0,
      Beat_CPU_User_Time_MS = 0, Beat_Memstats_MemoryAlloc = 0, Beat_Memstats_RSS = 0,
      Beat_Info_Uptime_MS = 0,
      Libbeat_Pipeline_Queue_Filled_Events = 0, Libbeat_Pipeline_Queue_MaxEvents = 0,
      Libbeat_Pipeline_Events_Total = 0, Libbeat_Pipeline_Events_Dropped = 0,
      Libbeat_Pipeline_Events_Failed = 0, Libbeat_Pipeline_Events_Filtered = 0,
      Timestamp = 0,
      Filebeat_Harvester_Running = 0, Filebeat_Harvester_Open = 0, Filebeat_Harvester_Closed = 0,
      Filebeat_Harvester_Started = 0, Filebeat_Harvester_Terminated = 0,
      Filebeat_Inputs = [], Filebeat_Modules_List = [],
      System_Load_Norm_Load1 = zero_f64, System_Load_Norm_Load5 = zero_f64,
      System_Load_Norm_Load15 = zero_f64\<rparr>"

definition zero_Input :: Input where
  "zero_Input =
     \<lparr>ID = [], Type = [], Device = [], Packets = 0, Bytes = 0, Events = 0, Active = False,
      ArrivalPeriod_Histogram = [], ProcessingTime_Histogram = [],
      Throughput_Bytes = zero_f64, Throughput_Events = zero_f64, Files = 0\<rparr>"

subsection \<open>Library behaviour used by the render functions\<close>

text \<open>
  The conversion \<^verbatim>\<open>int(x)\<close> of a double truncates towards zero. For a value that an
  \<^verbatim>\<open>int\<close> (64 bits) cannot hold, and for NaN, the language leaves the result to the
  implementation: \<open>oor\<close> stands for what the platform gives there.
\<close>

definition f64_to_int :: "(float64 \<Rightarrow> int) \<Rightarrow> float64 \<Rightarrow> int" where
  "f64_to_int oor x =
     (case x of
        Finite s m e \<Rightarrow>
          (let t = int (if 0 \<le> e then m * 2 ^ nat e else m div 2 ^ nat (- e));
               i = (if s then - t else t)
           in if - (2 ^ 63) \<le> i \<and> i < 2 ^ 63 then i else oor x)
      | Infinity s \<Rightarrow> oor x
      | NaN \<Rightarrow> oor x)"

text \<open>Arithmetic of \<^verbatim>\<open>int\<close> and \<^verbatim>\<open>int64\<close>: results wrap to 64 bits, division truncates.\<close>

definition wrap64 :: "int \<Rightarrow> int" where
  "wrap64 i = (i + 2 ^ 63) mod 2 ^ 64 - 2 ^ 63"

definition trunc_div :: "int \<Rightarrow> int \<Rightarrow> int" where
  "trunc_div a b = sgn a * sgn b * (\<bar>a\<bar> div \<bar>b\<bar>)"

definition trunc_rem :: "int \<Rightarrow> int \<Rightarrow> int" where
  "trunc_rem a b = sgn a * (\<bar>a\<bar> mod \<bar>b\<bar>)"

text \<open>
  \<^verbatim>\<open>strings.Repeat\<close>: it panics on a negative count and when
  \<^verbatim>\<open>len(s)*count/count != len(s)\<close>, the product having wrapped. Then it allocates the
  \<^verbatim>\<open>len(s)*count\<close> bytes of the result (\<^verbatim>\<open>Builder.Grow\<close>): the runtime's \<^verbatim>\<open>makeslice\<close>
  panics when they are more than \<^verbatim>\<open>maxAlloc\<close>, which is \<open>2\<^sup>4\<^sup>8\<close> bytes on amd64, and
  otherwise the program ends with \<^verbatim>\<open>out of memory\<close> when the system cannot give them:
  \<open>avail\<close> stands for the number of bytes the process can obtain for the result.
\<close>

definition maxAlloc :: nat where
  "maxAlloc = 2 ^ 48"

definition strings_Repeat :: "nat \<Rightarrow> string \<Rightarrow> int \<Rightarrow> panic + string" where
  "strings_Repeat avail s count =
     (if count = 0 then Inr []
      else if count < 0 then Inl NegativeRepeatCount
      else if trunc_div (wrap64 (int (length s) * count)) count \<noteq> int (length s)
        then Inl RepeatCountOverflow
      else if maxAlloc < length s * nat count then Inl MakesliceOutOfRange
      else if avail < length s * nat count then Inl OutOfMemory
      else Inr (concat (replicate (nat count) s)))"

text \<open>The verb \<^verbatim>\<open>%d\<close> for a signed integer.\<close>

definition sprintf_d_int :: "int \<Rightarrow> string" where
  "sprintf_d_int i = (if i < 0 then CHR ''-'' # sprintf_d (nat (- i)) else sprintf_d (nat i))"

subsubsection \<open>\<^verbatim>\<open>time.Duration\<close>\<close>

text \<open>
  A duration is an \<^verbatim>\<open>int64\<close> count of nanoseconds. \<^verbatim>\<open>String\<close> writes the text from its
  end: \<^verbatim>\<open>fmtFrac\<close> puts the fraction digits of \<open>v / 10\<^sup>p\<^sup>r\<^sup>e\<^sup>c\<close> before what is already
  written, omitting trailing zeros, and \<^verbatim>\<open>fmtInt\<close> the decimal digits of an integer.
\<close>

type_synonym Duration = "64 word"

definition Microsecond :: Duration where
  "Microsecond = 1000"

definition Millisecond :: Duration where
  "Millisecond = 1000000"

definition Second :: Duration where
  "Second = 1000000000"

definition Minute :: Duration where
  "Minute = 60000000000"

definition Duration_Truncate :: "Duration \<Rightarrow> Duration \<Rightarrow> Duration" where
  "Duration_Truncate d m =
     (if sint m \<le> 0 then d else d - word_of_int (trunc_rem (sint d) (sint m)))"

fun fmtFrac_loop :: "nat \<Rightarrow> nat \<Rightarrow> bool \<Rightarrow> string \<Rightarrow> string \<times> nat \<times> bool" where
  "fmtFrac_loop 0 v print buf = (buf, v, print)"
| "fmtFrac_loop (Suc i) v print buf =
     (let digit = v mod 10; print' = (print \<or> digit \<noteq> 0)
      in fmtFrac_loop i (v div 10) print' (if print' then digit_char digit # buf else buf))"

definition fmtFrac :: "string \<Rightarrow> nat \<Rightarrow> nat \<Rightarrow> string \<times> nat" where
  "fmtFrac buf v prec =
     (let (buf', v', print) = fmtFrac_loop prec v False buf
      in (if print then CHR ''.'' # buf' else buf', v'))"

definition fmtInt :: "string \<Rightarrow> nat \<Rightarrow> string" where
  "fmtInt buf v = sprintf_d v @ buf"

definition Duration_String :: "Duration \<Rightarrow> string" where
  "Duration_String d =
     (let neg = (sint d < 0);
          u = unat (if neg then - d else d);
          body =
            (if u < unat Second then
               (if u = 0 then ''0s''
                else
                  (let (prec, unit) =
                         (if u < unat Microsecond then (0, ''ns'')
                          else if u < unat Millisecond then (3, [CHR 0xC2, CHR 0xB5, CHR ''s''])
                          else (6, ''ms''));
                       (buf, u') = fmtFrac unit u prec
                   in fmtInt buf u'))
             else
               (let (buf, u1) = fmtFrac ''s'' u 9;
                    buf1 = fmtInt buf (u1 mod 60);
                    u2 = u1 div 60
                in if 0 < u2 then
                     (let buf2 = fmtInt (CHR ''m'' # buf1) (u2 mod 60);
                          u3 = u2 div 60
                      in if 0 < u3 then fmtInt (CHR ''h'' # buf2) u3 else buf2)
                   else buf1))
      in if neg then CHR ''-'' # body else body)"

subsubsection \<open>The table widget\<close>

text \<open>
  A table is its rows of cells. \<^verbatim>\<open>SetCell\<close> grows the table to the row and the row to
  the column it is given; \<^verbatim>\<open>RemoveRow\<close> does nothing for a row that does not exist;
  \<^verbatim>\<open>GetCell(r, c).SetText\<close> changes the cell in place when it exists.
\<close>

datatype color = ColorDefault | ColorWhite | ColorYellow | ColorOrange | ColorGreen | ColorBlue

datatype align = AlignLeft | AlignCenter

record TableCell =
  Text :: string
  Color :: color
  Align :: align

type_synonym Table = "TableCell list list"

definition NewTableCell :: "string \<Rightarrow> TableCell" where
  "NewTableCell t = \<lparr>Text = t, Color = ColorWhite, Align = AlignLeft\<rparr>"

definition SetTextColor :: "color \<Rightarrow> TableCell \<Rightarrow> TableCell" where
  "SetTextColor c cell = cell\<lparr>Color := c\<rparr>"

definition SetAlign :: "align \<Rightarrow> TableCell \<Rightarrow> TableCell" where
  "SetAlign a cell = cell\<lparr>Align := a\<rparr>"

definition empty_cell :: TableCell where
  "empty_cell = \<lparr>Text = [], Color = ColorDefault, Align = AlignLeft\<rparr>"

definition SetCell :: "nat \<Rightarrow> nat \<Rightarrow> TableCell \<Rightarrow> Table \<Rightarrow> Table" where
  "SetCell row column cell t =
     (let t' = t @ replicate (Suc row - length t) [];
          r = t' ! row;
          r' = r @ replicate (Suc column - length r) empty_cell
      in t'[row := r'[column := cell]])"

definition GetRowCount :: "Table \<Rightarrow> nat" where
  "GetRowCount t = length t"

definition RemoveRow :: "nat \<Rightarrow> Table \<Rightarrow> Table" where
  "RemoveRow row t = (if row < length t then take row t @ drop (Suc row) t else t)"

definition GetCell_SetText :: "nat \<Rightarrow> nat \<Rightarrow> string \<Rightarrow> Table \<Rightarrow> Table" where
  "GetCell_SetText row column txt t =
     (if row < length t \<and> column < length (t ! row)
      then t[row := (t ! row)[column := (t ! row ! column)\<lparr>Text := txt\<rparr>]]
      else t)"

text \<open>The text shown in a cell, for reading a rendered table.\<close>

definition cell_text :: "Table \<Rightarrow> nat \<Rightarrow> nat \<Rightarrow> string option" where
  "cell_text t row column =
     (if row < length t \<and> column < length (t ! row) then Some (Text (t ! row ! column))
      else None)"

subsection \<open>The widgets and \<^verbatim>\<open>initUI\<close>\<close>

text \<open>
  The page \<^verbatim>\<open>main\<close> has a fixed layout; the render functions reach a widget by its
  position in it. \<open>Widgets\<close> names the five positions they reach: in the left panel the
  system table (item 0), the queue view (item 1) and the harvester view (item 2), in the
  right panel the inputs table (item 0) and the modules list (item 1). A text view is
  its text and a list its item texts.
\<close>

record Widgets =
  systemPanel :: Table
  queuePanel :: string
  harvesterChart :: string
  inputsTable :: Table
  modulesWidget :: "string list"

type_synonym pageMap = "string \<Rightarrow> Widgets option"

definition addMetricRow :: "nat \<Rightarrow> string \<Rightarrow> string \<Rightarrow> color \<Rightarrow> Table \<Rightarrow> Table" where
  "addMetricRow row label val c t =
     SetCell row 1 (SetTextColor c (NewTableCell val))
       (SetCell row 0 (SetTextColor ColorWhite (NewTableCell label)) t)"

definition createSystemPanel :: Table where
  "createSystemPanel =
     addMetricRow 3 ''Load Avg:'' ''0.00 0.00 0.00'' ColorYellow
       (addMetricRow 2 ''Uptime:'' ''0h 0m'' ColorBlue
         (addMetricRow 1 ''Memoria RSS:'' ''0.0 MB'' ColorGreen
           (addMetricRow 0 ''CPU Total:'' ''0.0%'' ColorOrange [])))"

definition createQueuePanel :: string where
  "createQueuePanel = ''[green]0/0 [white]| [gray]....................''"

definition createHarvesterChart :: string where
  "createHarvesterChart = ''Active: 0 | Open Files: 0''"

definition header_cell :: "string \<Rightarrow> TableCell" where
  "header_cell h = SetAlign AlignCenter (SetTextColor ColorYellow (NewTableCell h))"

fun set_header_cells :: "nat \<Rightarrow> string list \<Rightarrow> Table \<Rightarrow> Table" where
  "set_header_cells col [] t = t"
| "set_header_cells col (h # hs) t = set_header_cells (Suc col) hs (SetCell 0 col (header_cell h) t)"

definition createInputsTable :: Table where
  "createInputsTable =
     set_header_cells 0 [''Type'', ''Active'', ''Events'', ''Throughput'', ''Files''] []"

definition createModulesWidget :: "string list" where
  "createModulesWidget = [''Loading...'']"

definition initUI :: pageMap where
  "initUI =
     (\<lambda>_. None)(''main'' \<mapsto>
       \<lparr>systemPanel = createSystemPanel, queuePanel = createQueuePanel,
        harvesterChart = createHarvesterChart, inputsTable = createInputsTable,
        modulesWidget = createModulesWidget\<rparr>)"

definition getPrimitiveFromPage :: "pageMap \<Rightarrow> string \<Rightarrow> Widgets option" where
  "getPrimitiveFromPage pm pageName = pm pageName"

subsection \<open>The render functions\<close>

text \<open>
  Each render function reads the global \<^verbatim>\<open>lastStats\<close>; here it receives the snapshot
  the pointer refers to, \<open>None\<close> for a nil pointer.
\<close>

definition cpuPercent :: "FilebeatStats \<Rightarrow> float64" where
  "cpuPercent s =
     f64_mul (f64_div (f64_of_u64 (Beat_CPU_Total_Time_MS s)) (f64_of_u64 (Beat_Info_Uptime_MS s)))
       (f64_of_nat 100)"

definition rssMB :: "FilebeatStats \<Rightarrow> float64" where
  "rssMB s =
     f64_div (f64_div (f64_of_u64 (Beat_Memstats_RSS s)) (f64_of_nat 1024)) (f64_of_nat 1024)"

definition uptime :: "FilebeatStats \<Rightarrow> Duration" where
  "uptime s = Beat_Info_Uptime_MS s * Millisecond"

definition updateSystemMetrics :: "FilebeatStats option \<Rightarrow> pageMap \<Rightarrow> pageMap" where
  "updateSystemMetrics snap pm =
     (case getPrimitiveFromPage pm ''main'' of
        None \<Rightarrow> pm
      | Some ws \<Rightarrow>
          (case snap of
             None \<Rightarrow> pm
           | Some s \<Rightarrow>
               pm(''main'' \<mapsto> ws\<lparr>systemPanel :=
                 GetCell_SetText 3 1
                   (sprintf_f 2 (System_Load_Norm_Load1 s) @ '' '' @
                    sprintf_f 2 (System_Load_Norm_Load5 s) @ '' '' @
                    sprintf_f 2 (System_Load_Norm_Load15 s))
                   (GetCell_SetText 2 1 (Duration_String (Duration_Truncate (uptime s) Minute))
                     (GetCell_SetText 1 1 (sprintf_f 1 (rssMB s) @ '' MB'')
                       (GetCell_SetText 0 1 (sprintf_f 1 (cpuPercent s) @ ''%'')
                         (systemPanel ws))))\<rparr>)))"

definition updateHarvesters :: "FilebeatStats option \<Rightarrow> pageMap \<Rightarrow> pageMap" where
  "updateHarvesters snap pm =
     (case getPrimitiveFromPage pm ''main'' of
        None \<Rightarrow> pm
      | Some ws \<Rightarrow>
          (case snap of
             None \<Rightarrow> pm(''main'' \<mapsto> ws\<lparr>harvesterChart := ''Active: 0 | Open Files: 0''\<rparr>)
           | Some s \<Rightarrow>
               pm(''main'' \<mapsto> ws\<lparr>harvesterChart :=
                 ''Active: '' @ sprintf_d (unat (Filebeat_Harvester_Running s)) @
                 '' | Open Files: '' @ sprintf_d (unat (Filebeat_Harvester_Open s))\<rparr>)))"

text \<open>The queue bar. The block character U+2588 is three bytes in a Go string.\<close>

definition block :: string where
  "block = [CHR 0xE2, CHR 0x96, CHR 0x88]"

definition queuePercent :: "FilebeatStats \<Rightarrow> float64" where
  "queuePercent s =
     (if 0 < Libbeat_Pipeline_Queue_MaxEvents s
      then f64_mul (f64_div (f64_of_u64 (Libbeat_Pipeline_Queue_Filled_Events s))
                            (f64_of_u64 (Libbeat_Pipeline_Queue_MaxEvents s)))
             (f64_of_nat 100)
      else zero_f64)"

definition queueBars :: "(float64 \<Rightarrow> int) \<Rightarrow> FilebeatStats \<Rightarrow> int" where
  "queueBars oor s =
     (let bars = f64_to_int oor (f64_div (queuePercent s) (f64_of_nat 5))
      in if bars < 0 then 0 else bars)"

definition updateQueue ::
  "nat \<Rightarrow> (float64 \<Rightarrow> int) \<Rightarrow> FilebeatStats option \<Rightarrow> pageMap \<Rightarrow> panic + pageMap" where
  "updateQueue avail oor snap pm =
     (case getPrimitiveFromPage pm ''main'' of
        None \<Rightarrow> Inr pm
      | Some ws \<Rightarrow>
          (case snap of
             None \<Rightarrow>
               Inr (pm(''main'' \<mapsto> ws\<lparr>queuePanel := ''[green]0/0 [white]| [gray]....................''\<rparr>))
           | Some s \<Rightarrow>
               (case strings_Repeat avail block (queueBars oor s) of
                  Inl p \<Rightarrow> Inl p
                | Inr bar \<Rightarrow>
                    Inr (pm(''main'' \<mapsto> ws\<lparr>queuePanel :=
                      ''[green]'' @ sprintf_d (unat (Libbeat_Pipeline_Queue_Filled_Events s)) @
                      ''/'' @ sprintf_d (unat (Libbeat_Pipeline_Queue_MaxEvents s)) @
                      '' [white]| '' @ bar\<rparr>)))))"

text \<open>
  The inputs table. The first loop is
  \<^verbatim>\<open>for row := 1; row < table.GetRowCount(); row++ { table.RemoveRow(row) }\<close>,
  the second sets the five cells of row \<open>i + 1\<close> for the input at index \<open>i\<close>.
\<close>

function remove_rows_loop :: "nat \<Rightarrow> Table \<Rightarrow> Table" where
  "remove_rows_loop row t =
     (if row < GetRowCount t then remove_rows_loop (Suc row) (RemoveRow row t) else t)"
  by pat_completeness auto
termination
  by (relation "measure (\<lambda>(row, t). length t - row)")
    (auto simp: GetRowCount_def RemoveRow_def)

declare remove_rows_loop.simps [simp del]

definition input_row :: "nat \<Rightarrow> Input \<Rightarrow> Table \<Rightarrow> Table" where
  "input_row i input t =
     SetCell (i + 1) 4 (SetTextColor ColorWhite (NewTableCell (sprintf_d (unat (Files input)))))
       (SetCell (i + 1) 3
          (SetTextColor ColorWhite (NewTableCell (sprintf_f 2 (Throughput_Bytes input))))
         (SetCell (i + 1) 2
            (SetTextColor ColorWhite (NewTableCell (sprintf_d (unat (Events input)))))
           (SetCell (i + 1) 1 (SetTextColor ColorWhite (NewTableCell (sprintf_t (Active input))))
             (SetCell (i + 1) 0 (SetTextColor ColorWhite (NewTableCell (Type input))) t))))"

fun set_input_rows :: "nat \<Rightarrow> Input list \<Rightarrow> Table \<Rightarrow> Table" where
  "set_input_rows i [] t = t"
| "set_input_rows i (input # inputs) t = set_input_rows (Suc i) inputs (input_row i input t)"

definition updateInputs :: "FilebeatStats option \<Rightarrow> pageMap \<Rightarrow> pageMap" where
  "updateInputs snap pm =
     (case getPrimitiveFromPage pm ''main'' of
        None \<Rightarrow> pm
      | Some ws \<Rightarrow>
          (let cleared = remove_rows_loop 1 (inputsTable ws)
           in case snap of
                None \<Rightarrow> pm(''main'' \<mapsto> ws\<lparr>inputsTable := cleared\<rparr>)
              | Some s \<Rightarrow>
                  pm(''main'' \<mapsto> ws\<lparr>inputsTable := set_input_rows 0 (Filebeat_Inputs s) cleared\<rparr>)))"

definition module_item :: "Module \<Rightarrow> string" where
  "module_item m =
     (if Enabled m then ''[green]'' @ [CHR 0xE2, CHR 0x9C, CHR 0x93]
      else ''[red]'' @ [CHR 0xE2, CHR 0x9C, CHR 0x97]) @
     '' '' @ Name m @ '' ('' @ sprintf_d_int (sint (Errors m)) @ '' errors)''"

definition updateModules :: "FilebeatStats option \<Rightarrow> pageMap \<Rightarrow> pageMap" where
  "updateModules snap pm =
     (case getPrimitiveFromPage pm ''main'' of
        None \<Rightarrow> pm
      | Some ws \<Rightarrow>
          (case snap of
             None \<Rightarrow> pm(''main'' \<mapsto> ws\<lparr>modulesWidget := []\<rparr>)
           | Some s \<Rightarrow>
               pm(''main'' \<mapsto> ws\<lparr>modulesWidget := map module_item (Filebeat_Modules_List s)\<rparr>)))"

definition updateUI ::
  "nat \<Rightarrow> (float64 \<Rightarrow> int) \<Rightarrow> FilebeatStats option \<Rightarrow> pageMap \<Rightarrow> panic + pageMap" where
  "updateUI avail oor snap pm =
     (case snap of
        None \<Rightarrow> Inr pm
      | Some s \<Rightarrow>
          (case updateQueue avail oor snap (updateSystemMetrics snap pm) of
             Inl p \<Rightarrow> Inl p
           | Inr pm' \<Rightarrow> Inr (updateModules snap (updateInputs snap (updateHarvesters snap pm')))))"

text \<open>The texts a render leaves on the screen, read from the page \<^verbatim>\<open>main\<close>.\<close>

definition rendered_cpu :: "pageMap \<Rightarrow> string option" where
  "rendered_cpu pm = (case pm ''main'' of None \<Rightarrow> None | Some ws \<Rightarrow> cell_text (systemPanel ws) 0 1)"

definition rendered_uptime :: "pageMap \<Rightarrow> string option" where
  "rendered_uptime pm =
     (case pm ''main'' of None \<Rightarrow> None | Some ws \<Rightarrow> cell_text (systemPanel ws) 2 1)"


definition rendered_inputs :: "pageMap \<Rightarrow> string list list option" where
  "rendered_inputs pm = map_option (\<lambda>ws. map (map Text) (inputsTable ws)) (pm ''main'')"

subsection \<open>Sample inputs\<close>

text \<open>An iteration whose two requests succeed.\<close>

definition ok_cycle :: cycle where
  "ok_cycle =
     \<lparr>statsResponse = GetOk \<lparr>StatusCode = 200, Body = Some zero_stats\<rparr>, clock = 7,
      inputsResponse = GetOk \<lparr>StatusCode = 200, Body = Some [zero_Input]\<rparr>\<rparr>"

text \<open>
  The invariant of the poll loop: a non-nil \<^verbatim>\<open>lastStats\<close> is the last element of the
  history and points to a stored snapshot.
\<close>

definition worker_inv :: "worker \<Rightarrow> bool" where
  "worker_inv w =
     (case lastStats w of
        None \<Rightarrow> True
      | Some p \<Rightarrow> history w \<noteq> [] \<and> last (history w) = p \<and> objs (heap w) p \<noteq> None)"

text \<open>
  The number of divisions by 1024 until the quotient is below 1024, and the byte
  formatter as the specification words it: binary units, the suffixes
  B, KiB, MiB, GiB, TiB, PiB, EiB in turn, one decimal place.
\<close>

fun unit_steps :: "nat \<Rightarrow> nat" where
  "unit_steps n = (if n < 1024 then 0 else Suc (unit_steps (n div 1024)))"

declare unit_steps.simps [simp del]

definition unit_suffixes :: "string list" where
  "unit_suffixes = [''B'', ''KiB'', ''MiB'', ''GiB'', ''TiB'', ''PiB'', ''EiB'']"

definition formatBytes_spec :: "nat \<Rightarrow> string" where
  "formatBytes_spec b =
     (let k = unit_steps b
      in if k = 0 then sprintf_d b @ '' B''
         else sprintf_f 1 (f64_div (f64_of_nat b) (f64_of_nat (1024 ^ k))) @ '' '' @
              unit_suffixes ! k)"

text \<open>Every second element of a list, starting with the second.\<close>

fun every_second :: "'a list \<Rightarrow> 'a list" where
  "every_second [] = []"
| "every_second [x] = []"
| "every_second (x # y # zs) = y # every_second zs"

text \<open>Snapshots with six inputs and with two inputs, told apart by their types.\<close>

definition six_inputs :: FilebeatStats where
  "six_inputs =
     zero_stats\<lparr>Filebeat_Inputs :=
       map (\<lambda>t. zero_Input\<lparr>Type := t\<rparr>) [''a'', ''b'', ''c'', ''d'', ''e'', ''f'']\<rparr>"

definition two_inputs :: FilebeatStats where
  "two_inputs =
     zero_stats\<lparr>Filebeat_Inputs :=
       [zero_Input\<lparr>Type := ''log'', Active := True, Events := 12,
          Throughput_Bytes := Finite False 6755399441055744 (- 52), Files := 3\<rparr>,
        zero_Input\<lparr>Type := ''udp''\<rparr>]\<rparr>"

text \<open>The five column texts of the table row of an input.\<close>

definition input_texts :: "Input \<Rightarrow> string list" where
  "input_texts input =
     [Type input, sprintf_t (Active input), sprintf_d (unat (Events input)),
      sprintf_f 2 (Throughput_Bytes input), sprintf_d (unat (Files input))]"

definition input_cells :: "Input \<Rightarrow> TableCell list" where
  "input_cells input = map (\<lambda>txt. SetTextColor ColorWhite (NewTableCell txt)) (input_texts input)"

text \<open>
  The text of a duration of whole minutes: hours when there are any, minutes, and a
  seconds part that is always \<^verbatim>\<open>0s\<close>; the zero duration is \<^verbatim>\<open>0s\<close>.
\<close>

definition minutes_text :: "nat \<Rightarrow> string" where
  "minutes_text mins =
     (if mins = 0 then ''0s''
      else (if 0 < mins div 60 then sprintf_d (mins div 60) @ ''h'' else '''') @
           sprintf_d (mins mod 60) @ ''m0s'')"






text \<open>
  Comparing a ratio of naturals with a power of two whose exponent is an integer:
  \<open>a / b < 2\<^sup>p\<close> and \<open>2\<^sup>p \<le> a / b\<close>, without leaving the naturals.
\<close>

definition ratio_less_pow2 :: "nat \<Rightarrow> nat \<Rightarrow> int \<Rightarrow> bool" where
  "ratio_less_pow2 a b p = (a * 2 ^ nat (- p) < b * 2 ^ nat p)"

definition pow2_le_ratio :: "nat \<Rightarrow> nat \<Rightarrow> int \<Rightarrow> bool" where
  "pow2_le_ratio a b p = (b * 2 ^ nat p \<le> a * 2 ^ nat (- p))"

text \<open>
  A positive normal double whose exponent lies between \<open>lo\<close> and \<open>hi\<close>: the significand
  has its leading bit set.
\<close>

definition f64_normal :: "int \<Rightarrow> int \<Rightarrow> float64 \<Rightarrow> bool" where
  "f64_normal lo hi x =
     (\<exists>m e. x = Finite False m e \<and> 2 ^ 52 \<le> m \<and> m < 2 ^ 53 \<and> lo \<le> e \<and> e \<le> hi)"

text \<open>A decimal number with exactly one digit after the point.\<close>

definition one_decimal :: "string \<Rightarrow> bool" where
  "one_decimal t = (\<exists>q d. d < 10 \<and> t = sprintf_d q @ ''.'' @ [digit_char d])"

section \<open>Properties of the poll loop\<close>

subsection \<open>The history buffer\<close>

lemma append_history_length:
  "length h \<le> historySize \<Longrightarrow> length (append_history h p) \<le> historySize"
  by (auto simp: append_history_def Let_def historySize_def)

lemma append_history_full:
  "length h = historySize \<Longrightarrow> append_history h p = tl h @ [p]"
  by (cases h) (simp_all add: append_history_def Let_def historySize_def)

lemma append_history_room:
  "length h < historySize \<Longrightarrow> append_history h p = h @ [p]"
  by (simp add: append_history_def Let_def)

lemma append_history_last:
  "append_history h p \<noteq> [] \<and> last (append_history h p) = p"
  by (cases h) (simp_all add: append_history_def Let_def historySize_def)

lemma fetchStats_cases:
  "(\<exists>err. fetchStats r now st = (Inl err, st)) \<or>
   (\<exists>resp stats. r = GetOk resp \<and> StatusCode resp = StatusOK \<and> Body resp = Some stats \<and>
      fetchStats r now st = (Inr (next_addr st),
        st\<lparr>objs := (objs st)(next_addr st \<mapsto> stats\<lparr>Timestamp := now\<rparr>),
           next_addr := Suc (next_addr st)\<rparr>))"
  by (auto simp: fetchStats_def alloc_def split: get_result.splits option.splits)

lemma cycle_history:
  "history (snd (dataWorker_cycle c w)) = history w \<and>
     lastStats (snd (dataWorker_cycle c w)) = lastStats w \<or>
   history (snd (dataWorker_cycle c w)) = append_history (history w) (next_addr (heap w)) \<and>
     lastStats (snd (dataWorker_cycle c w)) = Some (next_addr (heap w))"
  using fetchStats_cases [of "statsResponse c" "clock c" "heap w"]
  by (auto simp: dataWorker_cycle_def Let_def split: prod.splits sum.splits)

lemma cycle_length:
  "length (history w) \<le> historySize \<Longrightarrow>
   length (history (snd (dataWorker_cycle c w))) \<le> historySize"
  using cycle_history [of c w] append_history_length [of "history w"]
  by auto

lemma snd_dataWorker_Cons:
  "snd (dataWorker (c # cs) w) = snd (dataWorker cs (snd (dataWorker_cycle c w)))"
  by (simp add: Let_def case_prod_beta)

lemma dataWorker_length:
  "length (history w) \<le> historySize \<Longrightarrow>
   length (history (snd (dataWorker cs w))) \<le> historySize"
proof (induction cs arbitrary: w)
  case Nil
  then show ?case by simp
next
  case (Cons c cs)
  have "length (history (snd (dataWorker_cycle c w))) \<le> historySize"
    using Cons.prems by (rule cycle_length)
  then have "length (history (snd (dataWorker cs (snd (dataWorker_cycle c w))))) \<le> historySize"
    by (rule Cons.IH)
  then show ?case
    by (simp only: snd_dataWorker_Cons)
qed

lemma cycle_inv:
  "worker_inv w \<Longrightarrow> worker_inv (snd (dataWorker_cycle c w))"
  using fetchStats_cases [of "statsResponse c" "clock c" "heap w"]
    append_history_last [of "history w" "next_addr (heap w)"]
  by (auto simp: worker_inv_def dataWorker_cycle_def set_Inputs_def Let_def
      split: prod.splits sum.splits option.splits)

lemma dataWorker_inv:
  "worker_inv w \<Longrightarrow> worker_inv (snd (dataWorker cs w))"
proof (induction cs arbitrary: w)
  case Nil
  then show ?case by simp
next
  case (Cons c cs)
  from Cons.prems have "worker_inv (snd (dataWorker_cycle c w))"
    by (rule cycle_inv)
  then have "worker_inv (snd (dataWorker cs (snd (dataWorker_cycle c w))))"
    by (rule Cons.IH)
  then show ?case
    by (simp only: snd_dataWorker_Cons)
qed

lemma fetchStats_fails_iff:
  "(\<exists>err. fst (fetchStats (statsResponse c) now st) = Inl err) \<longleftrightarrow> \<not> stats_ok c"
  by (auto simp: fetchStats_def stats_ok_def alloc_def split: get_result.splits option.splits)

lemma cycle_ok_history:
  "stats_ok c \<Longrightarrow>
   history (snd (dataWorker_cycle c w)) = append_history (history w) (next_addr (heap w)) \<and>
   next_addr (heap (snd (dataWorker_cycle c w))) = Suc (next_addr (heap w))"
  by (auto simp: dataWorker_cycle_def stats_ok_def fetchStats_def alloc_def set_Inputs_def Let_def
      split: get_result.splits option.splits sum.splits prod.splits)

lemma cycle_failed_same:
  "\<not> stats_ok c \<Longrightarrow> snd (dataWorker_cycle c w) = w"
  by (auto simp: dataWorker_cycle_def stats_ok_def fetchStats_def
      split: get_result.splits option.splits)

lemma keep_newest_append_history:
  "length h \<le> historySize \<Longrightarrow> append_history h p = keep_newest (h @ [p])"
  by (cases "length h = historySize")
    (simp_all add: append_history_def keep_newest_def Let_def historySize_def)

lemma keep_newest_idem:
  "keep_newest (keep_newest xs @ ys) = keep_newest (xs @ ys)"
proof (cases "length xs \<le> historySize")
  case True
  then show ?thesis
    by (simp add: keep_newest_def)
next
  case False
  then have "length xs + length ys - (length xs - historySize + historySize) +
      (length xs - historySize) = length xs + length ys - historySize"
    by simp
  then show ?thesis
    using False by (simp add: keep_newest_def)
qed

lemma length_keep_newest: "length (keep_newest xs) \<le> historySize"
  by (auto simp: keep_newest_def)

lemma dataWorker_history_closed_form:
  "history (snd (dataWorker cs w)) =
     keep_newest (keep_newest (history w) @
       [next_addr (heap w) ..< next_addr (heap w) + length (filter stats_ok cs)]) \<and>
   next_addr (heap (snd (dataWorker cs w))) = next_addr (heap w) + length (filter stats_ok cs)"
  if "length (history w) \<le> historySize"
  using that
proof (induction cs arbitrary: w)
  case Nil
  then show ?case
    by (simp add: keep_newest_def)
next
  case (Cons c cs)
  let ?w = "snd (dataWorker_cycle c w)"
  have len: "length (history ?w) \<le> historySize"
    using Cons.prems by (rule cycle_length)
  note IH = Cons.IH [OF len]
  show ?case
  proof (cases "stats_ok c")
    case True
    have h: "history ?w = keep_newest (history w @ [next_addr (heap w)])"
      and n: "next_addr (heap ?w) = Suc (next_addr (heap w))"
      using cycle_ok_history [OF True, of w] keep_newest_append_history [OF Cons.prems]
      by simp_all
    have "keep_newest (keep_newest (history ?w) @ [Suc (next_addr (heap w)) ..<
              Suc (next_addr (heap w)) + length (filter stats_ok cs)]) =
          keep_newest (history w @ [next_addr (heap w)] @ [Suc (next_addr (heap w)) ..<
              Suc (next_addr (heap w)) + length (filter stats_ok cs)])"
      by (simp add: h keep_newest_idem)
    also have "[next_addr (heap w)] @ [Suc (next_addr (heap w)) ..<
              Suc (next_addr (heap w)) + length (filter stats_ok cs)] =
          [next_addr (heap w) ..< next_addr (heap w) + length (filter stats_ok (c # cs))]"
      using True upt_conv_Cons [of "next_addr (heap w)"
          "next_addr (heap w) + Suc (length (filter stats_ok cs))"]
      by simp
    finally show ?thesis
      using IH n True by (simp add: snd_dataWorker_Cons keep_newest_idem del: dataWorker.simps)
  next
    case False
    then show ?thesis
      using IH by (simp add: snd_dataWorker_Cons cycle_failed_same del: dataWorker.simps)
  qed
qed

lemma history_from_start:
  "history (snd (dataWorker cs (initial_worker r))) =
     keep_newest [0 ..< length (filter stats_ok cs)]"
  using dataWorker_history_closed_form [of "initial_worker r" cs]
  by (simp add: initial_worker_def keep_newest_def)

text \<open>
  C1. The history buffer never holds more than 30 snapshots. After any run of the poll loop
  from program start, the history has at most \<open>historySize = 30\<close> entries; when a further
  snapshot is appended to a full history, the result is the old history without its first
  entry, in the same order, followed by the new snapshot, and the evicted entry is no
  longer present; below capacity the snapshot is appended and nothing is evicted.
\<close>

theorem history_bounded_fifo:
  "let w = snd (dataWorker cs (initial_worker r)); w' = snd (dataWorker_cycle c w)
   in historySize = 30 \<and> length (history w) \<le> historySize \<and>
      (fst (fetchStats (statsResponse c) (clock c) (heap w)) = Inr p \<longrightarrow>
         (length (history w) = historySize \<longrightarrow>
            history w' = tl (history w) @ [p] \<and> hd (history w) \<notin> set (history w')) \<and>
         (length (history w) < historySize \<longrightarrow> history w' = history w @ [p]))"
proof -
  define w where "w = snd (dataWorker cs (initial_worker r))"
  define w' where "w' = snd (dataWorker_cycle c w)"
  define n where "n = length (filter stats_ok cs)"
  have len: "length (history w) \<le> historySize"
    unfolding w_def by (rule dataWorker_length) (simp add: initial_worker_def)
  have hist: "history w = keep_newest [0 ..< n]"
    unfolding w_def n_def by (rule history_from_start)
  have nxt: "next_addr (heap w) = n"
    unfolding w_def n_def
    using dataWorker_history_closed_form [of "initial_worker r" cs]
    by (simp add: initial_worker_def)
  have step: "history w' = append_history (history w) p \<and> p = n"
    if ok: "fst (fetchStats (statsResponse c) (clock c) (heap w)) = Inr p"
  proof -
    from ok have "stats_ok c"
      using fetchStats_fails_iff [of c "clock c" "heap w"] by auto
    moreover from ok have "p = next_addr (heap w)"
      using fetchStats_cases [of "statsResponse c" "clock c" "heap w"] by auto
    ultimately show ?thesis
      using cycle_ok_history [of c w] nxt by (simp add: w'_def)
  qed
  have full: "history w' = tl (history w) @ [p] \<and> hd (history w) \<notin> set (history w')"
    if ok: "fst (fetchStats (statsResponse c) (clock c) (heap w)) = Inr p"
      and l: "length (history w) = historySize"
  proof -
    have eq: "history w' = tl (history w) @ [p]"
      using step [OF ok] append_history_full [OF l] by simp
    from l hist have "historySize \<le> n"
      by (simp add: keep_newest_def historySize_def)
    then have h: "history w = [n - historySize ..< n]"
      using hist by (simp add: keep_newest_def)
    have "0 < historySize"
      by (simp add: historySize_def)
    with \<open>historySize \<le> n\<close> have "hd (history w) = n - historySize"
      by (simp add: h)
    moreover have "set (history w') \<subseteq> {Suc (n - historySize) .. n}"
      using step [OF ok] eq \<open>historySize \<le> n\<close> \<open>0 < historySize\<close>
      by (auto simp: h tl_upt)
    ultimately show ?thesis
      using eq by auto
  qed
  have room: "history w' = history w @ [p]"
    if ok: "fst (fetchStats (statsResponse c) (clock c) (heap w)) = Inr p"
      and l: "length (history w) < historySize"
    using step [OF ok] append_history_room [OF l] by simp
  have "historySize = 30"
    by (simp add: historySize_def)
  with len full room show ?thesis
    unfolding Let_def w_def [symmetric] w'_def [symmetric]
    by blast
qed

lemma stats_ok_ok_cycle: "stats_ok ok_cycle"
  by (simp add: stats_ok_def ok_cycle_def StatusOK_def)

lemma filter_replicate_ok: "filter stats_ok (replicate n ok_cycle) = replicate n ok_cycle"
  by (induction n) (simp_all add: stats_ok_ok_cycle)

theorem history_bounded_fifo_witness:
  "(let w = snd (dataWorker (replicate 30 ok_cycle) (initial_worker 5))
    in history w = [0 ..< 30] \<and> length (history w) = historySize \<and>
       fst (fetchStats (statsResponse ok_cycle) (clock ok_cycle) (heap w)) = Inr 30 \<and>
       history (snd (dataWorker_cycle ok_cycle w)) = [1 ..< 31] \<and>
       0 \<notin> set (history (snd (dataWorker_cycle ok_cycle w)))) \<and>
   (let w = snd (dataWorker [] (initial_worker 5))
    in length (history w) < historySize \<and>
       fst (fetchStats (statsResponse ok_cycle) (clock ok_cycle) (heap w)) = Inr 0 \<and>
       history (snd (dataWorker_cycle ok_cycle w)) = [0])"
proof -
  define w where "w = snd (dataWorker (replicate 30 ok_cycle) (initial_worker 5))"
  have h: "history w = [0 ..< 30]"
    unfolding w_def
    by (simp add: history_from_start filter_replicate_ok keep_newest_def historySize_def)
  have n: "next_addr (heap w) = 30"
    unfolding w_def
    using dataWorker_history_closed_form [of "initial_worker 5" "replicate 30 ok_cycle"]
    by (simp add: initial_worker_def filter_replicate_ok)
  have f: "fst (fetchStats (statsResponse ok_cycle) (clock ok_cycle) (heap w)) = Inr 30"
    by (simp add: fetchStats_def ok_cycle_def StatusOK_def alloc_def n)
  have l: "length (history w) = historySize"
    by (simp add: h historySize_def)
  have "fst (fetchStats (statsResponse ok_cycle) (clock ok_cycle) (heap w)) = Inr 30 \<longrightarrow>
      length (history w) = historySize \<longrightarrow>
      history (snd (dataWorker_cycle ok_cycle w)) = tl (history w) @ [30] \<and>
      hd (history w) \<notin> set (history (snd (dataWorker_cycle ok_cycle w)))"
    using history_bounded_fifo [of "replicate 30 ok_cycle" 5 ok_cycle 30]
    unfolding Let_def w_def [symmetric] by blast
  with f l have "history (snd (dataWorker_cycle ok_cycle w)) = tl (history w) @ [30] \<and>
      hd (history w) \<notin> set (history (snd (dataWorker_cycle ok_cycle w)))"
    by blast
  moreover have "tl [0 ..< 30] @ [30] = [1 ..< 31]"
    using upt_Suc_append [of 1 30] by (simp add: tl_upt)
  moreover have "hd [0 ..< 30 :: nat] = 0"
    by (simp add: upt_rec [of 0 30])
  ultimately have first: "history (snd (dataWorker_cycle ok_cycle w)) = [1 ..< 31] \<and>
      0 \<notin> set (history (snd (dataWorker_cycle ok_cycle w)))"
    by (simp add: h)
  define v where "v = snd (dataWorker [] (initial_worker 5))"
  have v: "v = initial_worker 5"
    by (simp add: v_def)
  have fv: "fst (fetchStats (statsResponse ok_cycle) (clock ok_cycle) (heap v)) = Inr 0"
    by (simp add: v fetchStats_def ok_cycle_def StatusOK_def alloc_def initial_worker_def)
  have lv: "length (history v) < historySize"
    by (simp add: v initial_worker_def historySize_def)
  have "fst (fetchStats (statsResponse ok_cycle) (clock ok_cycle) (heap v)) = Inr 0 \<longrightarrow>
      length (history v) < historySize \<longrightarrow>
      history (snd (dataWorker_cycle ok_cycle v)) = history v @ [0]"
    using history_bounded_fifo [of "[]" 5 ok_cycle 0]
    unfolding Let_def v_def [symmetric] by blast
  with fv lv have second: "history (snd (dataWorker_cycle ok_cycle v)) = [0]"
    by (simp add: v initial_worker_def)
  show ?thesis
    unfolding Let_def w_def [symmetric] v_def [symmetric]
    using h l f first lv fv second by simp
qed

subsection \<open>Failed requests\<close>

text \<open>
  C3. A failed stats fetch changes nothing. If the stats request of an iteration fails (a
  transport error, a status other than 200, or a body that does not decode), the
  iteration logs the error and sleeps, and the whole state of the worker is as before:
  the last-snapshot pointer, the history, and every stored snapshot. The loop goes on with
  the next iteration from that same state.
\<close>

theorem failed_stats_fetch_changes_nothing:
  assumes "statsResponse c = GetError \<or>
      (\<exists>resp. statsResponse c = GetOk resp \<and> (StatusCode resp \<noteq> 200 \<or> Body resp = None))"
  shows "\<exists>err. dataWorker_cycle c w = ([LogStatsError err, Sleep (refresh w)], w) \<and>
      dataWorker (c # cs) w =
        (LogStatsError err # Sleep (refresh w) # fst (dataWorker cs w), snd (dataWorker cs w))"
proof -
  from assms have "\<not> stats_ok c"
    by (auto simp: stats_ok_def StatusOK_def)
  then obtain err where "fetchStats (statsResponse c) (clock c) (heap w) = (Inl err, heap w)"
    using fetchStats_fails_iff [of c "clock c" "heap w"]
      fetchStats_cases [of "statsResponse c" "clock c" "heap w"]
    by auto
  then have "dataWorker_cycle c w = ([LogStatsError err, Sleep (refresh w)], w)"
    by (simp add: dataWorker_cycle_def)
  then show ?thesis
    by (auto simp: Let_def case_prod_beta)
qed

theorem failed_stats_fetch_changes_nothing_witness:
  "(let c = ok_cycle\<lparr>statsResponse := GetOk \<lparr>StatusCode = 503, Body = Some zero_stats\<rparr>\<rparr>;
        w = snd (dataWorker [ok_cycle] (initial_worker 5))
    in lastStats w = Some 0 \<and> history w = [0] \<and>
       (\<exists>resp. statsResponse c = GetOk resp \<and> (StatusCode resp \<noteq> 200 \<or> Body resp = None)) \<and>
       (\<exists>err. dataWorker_cycle c w = ([LogStatsError err, Sleep 5], w)))"
proof -
  define c where "c = ok_cycle\<lparr>statsResponse := GetOk \<lparr>StatusCode = 503, Body = Some zero_stats\<rparr>\<rparr>"
  define w where "w = snd (dataWorker [ok_cycle] (initial_worker 5))"
  have w: "lastStats w = Some 0 \<and> history w = [0] \<and> refresh w = 5"
    by (simp add: w_def dataWorker_cycle_def fetchStats_def ok_cycle_def StatusOK_def alloc_def
        initial_worker_def fetchInputs_def set_Inputs_def append_history_def historySize_def)
  have hyp: "\<exists>resp. statsResponse c = GetOk resp \<and> (StatusCode resp \<noteq> 200 \<or> Body resp = None)"
    by (simp add: c_def)
  then have "\<exists>err. dataWorker_cycle c w = ([LogStatsError err, Sleep (refresh w)], w)"
    using failed_stats_fetch_changes_nothing [of c w "[]"] by blast
  with w hyp show ?thesis
    unfolding Let_def c_def [symmetric] w_def [symmetric] by simp
qed

text \<open>
  C4. A failed inputs fetch does not stop the iteration. If the stats request succeeds
  and the inputs request fails, the iteration logs the inputs error, then publishes: the
  history is the old history followed by the new snapshot, every earlier entry kept in its
  place (without its first entry when the old history held 30 or more), the new snapshot
  becomes the last snapshot, it is the decoded stats payload with the time stamp set, its
  inputs being those decoded from the stats payload, and no snapshot stored before is
  touched.
\<close>

theorem failed_inputs_fetch_still_publishes:
  assumes "statsResponse c = GetOk resp" and "StatusCode resp = 200"
    and "Body resp = Some stats"
    and "fetchInputs (inputsResponse c) = Inl err"
  shows "let p = next_addr (heap w); w' = snd (dataWorker_cycle c w)
         in fst (dataWorker_cycle c w) = [LogInputsError err, QueueUpdateDraw, Sleep (refresh w)] \<and>
            lastStats w' = Some p \<and>
            history w' =
              (if length (history w) < 30 then history w @ [p] else drop 1 (history w) @ [p]) \<and>
            last (history w') = p \<and>
            deref w' (lastStats w') = Some (stats\<lparr>Timestamp := clock c\<rparr>) \<and>
            map_option Filebeat_Inputs (deref w' (lastStats w')) = Some (Filebeat_Inputs stats) \<and>
            (\<forall>q. q \<noteq> p \<longrightarrow> objs (heap w') q = objs (heap w) q)"
proof -
  define p where "p = next_addr (heap w)"
  have "append_history (history w) p =
      (if length (history w) < 30 then history w @ [p] else drop 1 (history w) @ [p])"
    by (cases "history w") (simp_all add: append_history_def historySize_def Let_def)
  then show ?thesis
    using assms append_history_last [of "history w" p] unfolding p_def
    by (simp add: dataWorker_cycle_def fetchStats_def StatusOK_def alloc_def Let_def deref_def)
qed

theorem failed_inputs_fetch_still_publishes_witness:
  "(let c = ok_cycle\<lparr>inputsResponse := GetError\<rparr>;
        w = snd (dataWorker_cycle ok_cycle (initial_worker 5));
        w' = snd (dataWorker_cycle c w)
    in statsResponse c = GetOk \<lparr>StatusCode = 200, Body = Some zero_stats\<rparr> \<and>
       fetchInputs (inputsResponse c) = Inl TransportError \<and>
       lastStats w = Some 0 \<and> history w = [0] \<and>
       fst (dataWorker_cycle c w) = [LogInputsError TransportError, QueueUpdateDraw, Sleep 5] \<and>
       lastStats w' = Some 1 \<and> history w' = [0, 1] \<and>
       deref w' (lastStats w') = Some (zero_stats\<lparr>Timestamp := 7\<rparr>) \<and>
       map_option Filebeat_Inputs (deref w' (lastStats w')) = Some [] \<and>
       map_option Filebeat_Inputs (deref w' (Some 0)) = Some [zero_Input]) \<and>
   (let c = ok_cycle\<lparr>inputsResponse := GetError\<rparr>;
        w = snd (dataWorker (replicate 30 ok_cycle) (initial_worker 5));
        w' = snd (dataWorker_cycle c w)
    in history w = [0 ..< 30] \<and> lastStats w' = Some 30 \<and> history w' = [1 ..< 31])"
proof -
  define c where "c = ok_cycle\<lparr>inputsResponse := GetError\<rparr>"
  have 1: "statsResponse c = GetOk \<lparr>StatusCode = 200, Body = Some zero_stats\<rparr>"
    by (simp add: c_def ok_cycle_def)
  have 2: "StatusCode \<lparr>StatusCode = 200, Body = Some zero_stats\<rparr> = 200"
    by simp
  have 3: "Body \<lparr>StatusCode = 200, Body = Some zero_stats\<rparr> = Some zero_stats"
    by simp
  have 4: "fetchInputs (inputsResponse c) = Inl TransportError"
    by (simp add: c_def fetchInputs_def)
  have 5: "clock c = 7"
    by (simp add: c_def ok_cycle_def)
  have i: "Filebeat_Inputs zero_stats = []"
    by (simp add: zero_stats_def)
  define w where "w = snd (dataWorker_cycle ok_cycle (initial_worker 5))"
  define w' where "w' = snd (dataWorker_cycle c w)"
  have w: "lastStats w = Some 0" "history w = [0]" "next_addr (heap w) = 1" "refresh w = 5"
    "map_option Filebeat_Inputs (objs (heap w) 0) = Some [zero_Input]"
    by (simp_all add: w_def dataWorker_cycle_def fetchStats_def fetchInputs_def ok_cycle_def
        StatusOK_def alloc_def set_Inputs_def initial_worker_def append_history_def
        historySize_def Let_def)
  note T = failed_inputs_fetch_still_publishes [of c _ zero_stats TransportError w,
      OF 1 2 3 4, unfolded Let_def w 5 i, folded w'_def]
  from T have old: "objs (heap w') 0 = objs (heap w) 0"
    by simp
  with w(5) have kept: "map_option Filebeat_Inputs (deref w' (Some 0)) = Some [zero_Input]"
    by (simp add: deref_def)
  have hh: "(if length [0 :: addr] < 30 then [0] @ [1] else drop 1 [0] @ [1]) = [0, 1 :: addr]"
    by simp
  from T [unfolded hh] have "fst (dataWorker_cycle c w) =
        [LogInputsError TransportError, QueueUpdateDraw, Sleep 5] \<and>
      lastStats w' = Some 1 \<and> history w' = [0, 1] \<and>
      deref w' (lastStats w') = Some (zero_stats\<lparr>Timestamp := 7\<rparr>) \<and>
      map_option Filebeat_Inputs (deref w' (lastStats w')) = Some []"
    by blast
  with kept have first: "fst (dataWorker_cycle c w) =
        [LogInputsError TransportError, QueueUpdateDraw, Sleep 5] \<and>
      lastStats w' = Some 1 \<and> history w' = [0, 1] \<and>
      deref w' (lastStats w') = Some (zero_stats\<lparr>Timestamp := 7\<rparr>) \<and>
      map_option Filebeat_Inputs (deref w' (lastStats w')) = Some [] \<and>
      map_option Filebeat_Inputs (deref w' (Some 0)) = Some [zero_Input]"
    by blast
  define v where "v = snd (dataWorker (replicate 30 ok_cycle) (initial_worker 5))"
  define v' where "v' = snd (dataWorker_cycle c v)"
  have h: "history v = [0 ..< 30]"
    unfolding v_def
    by (simp add: history_from_start filter_replicate_ok keep_newest_def historySize_def)
  have n: "next_addr (heap v) = 30"
    unfolding v_def
    using dataWorker_history_closed_form [of "initial_worker 5" "replicate 30 ok_cycle"]
    by (simp add: initial_worker_def filter_replicate_ok)
  note V = failed_inputs_fetch_still_publishes [of c _ zero_stats TransportError v,
      OF 1 2 3 4, unfolded Let_def n h, folded v'_def]
  have "drop 1 [0 ..< 30] @ [30] = [1 ..< 31]"
    using upt_Suc_append [of 1 30] by simp
  moreover from V have "lastStats v' = Some 30"
    and "history v' = (if length [0 ..< 30 :: nat] < 30 then [0 ..< 30] @ [30]
           else drop 1 [0 ..< 30] @ [30])"
    by blast+
  ultimately have second: "lastStats v' = Some 30 \<and> history v' = [1 ..< 31]"
    by simp
  show ?thesis
    unfolding Let_def c_def [symmetric] w_def [symmetric] w'_def [symmetric]
      v_def [symmetric] v'_def [symmetric]
    using 1 4 w(1,2) first h second by blast
qed

subsection \<open>The published snapshot\<close>

text \<open>
  C9. The published snapshot is the newest history entry. After any number of iterations
  from program start, failed or successful, a non-nil last-snapshot pointer is the last
  element of the history, which is then not empty, and it points to a stored snapshot.
\<close>

theorem published_snapshot_is_newest_history_entry:
  assumes "lastStats (snd (dataWorker cs (initial_worker r))) = Some p"
  shows "history (snd (dataWorker cs (initial_worker r))) \<noteq> [] \<and>
         last (history (snd (dataWorker cs (initial_worker r)))) = p \<and>
         deref (snd (dataWorker cs (initial_worker r))) (Some p) \<noteq> None"
proof -
  have "worker_inv (initial_worker r)"
    by (simp add: worker_inv_def initial_worker_def)
  then have "worker_inv (snd (dataWorker cs (initial_worker r)))"
    by (rule dataWorker_inv)
  with assms show ?thesis
    by (simp add: worker_inv_def deref_def)
qed

theorem published_snapshot_is_newest_history_entry_witness:
  "(let w = snd (dataWorker
              [ok_cycle, ok_cycle\<lparr>statsResponse := GetError\<rparr>, ok_cycle\<lparr>clock := 9\<rparr>,
               ok_cycle\<lparr>statsResponse := GetError\<rparr>]
              (initial_worker 5))
    in lastStats w = Some 1 \<and> history w = [0, 1] \<and> last (history w) = 1 \<and>
       deref w (Some 1) \<noteq> None)"
proof -
  define cs where "cs = [ok_cycle, ok_cycle\<lparr>statsResponse := GetError\<rparr>, ok_cycle\<lparr>clock := 9\<rparr>,
               ok_cycle\<lparr>statsResponse := GetError\<rparr>]"
  define w where "w = snd (dataWorker cs (initial_worker 5))"
  have l: "lastStats w = Some 1 \<and> history w = [0, 1]"
    by (simp add: w_def cs_def dataWorker_cycle_def fetchStats_def ok_cycle_def StatusOK_def
        alloc_def initial_worker_def fetchInputs_def set_Inputs_def append_history_def
        historySize_def)
  then have "lastStats (snd (dataWorker cs (initial_worker 5))) = Some 1"
    by (simp add: w_def)
  then have "history w \<noteq> [] \<and> last (history w) = 1 \<and> deref w (Some 1) \<noteq> None"
    unfolding w_def by (rule published_snapshot_is_newest_history_entry)
  with l show ?thesis
    unfolding Let_def cs_def [symmetric] w_def [symmetric] by simp
qed

section \<open>Properties of the binary64 arithmetic\<close>

subsection \<open>Evaluation\<close>

lemmas round_f64_eval =
  round_f64_def floor_log2_ratio_def round_half_even_div_def bitlen.simps Let_def

lemmas sprintf_d_eval = sprintf_d.simps digit_char_def

lemma f64_div_Finite:
  "n \<noteq> 0 \<Longrightarrow>
   f64_div (Finite s m e) (Finite t n f) =
     round_f64 (s \<noteq> t) (m * 2 ^ nat (e - f)) (n * 2 ^ nat (f - e))"
  by (simp add: f64_div_def)

lemma f64_mul_Finite:
  "f64_mul (Finite s m e) (Finite t n f) =
     round_f64 (s \<noteq> t) (m * n * 2 ^ nat (e + f)) (2 ^ nat (- (e + f)))"
  by (simp add: f64_mul_def)

lemma sprintf_f_Finite:
  "sprintf_f prec (Finite s m e) =
     (let n = round_half_even_div (m * 10 ^ prec * 2 ^ nat e) (2 ^ nat (- e))
      in (if s then ''-'' else '''') @ sprintf_d (n div 10 ^ prec) @
         (if prec = 0 then '''' else ''.'' @ zero_pad prec (sprintf_d (n mod 10 ^ prec))))"
  by (simp add: sprintf_f_def)

lemma f64_of_nat_0: "f64_of_nat 0 = zero_f64"
  by (simp add: f64_of_nat_def round_f64_def zero_f64_def)

lemma f64_of_nat_5: "f64_of_nat 5 = Finite False 5629499534213120 (- 50)"
  by (simp add: f64_of_nat_def round_f64_eval)

lemma f64_of_nat_100: "f64_of_nat 100 = Finite False 7036874417766400 (- 46)"
  by (simp add: f64_of_nat_def round_f64_eval)

subsection \<open>Bit lengths and ratios\<close>

lemma bitlen_less: "n < 2 ^ bitlen n"
proof (induction n rule: bitlen.induct)
  case (1 n)
  show ?case
  proof (cases "n = 0")
    case True
    then show ?thesis
      by (simp add: bitlen.simps [of 0])
  next
    case False
    then have "n div 2 < 2 ^ bitlen (n div 2)"
      by (rule "1.IH")
    then have "n < 2 * 2 ^ bitlen (n div 2)"
      by linarith
    then show ?thesis
      using False by (simp add: bitlen.simps [of n])
  qed
qed

lemma bitlen_ge: "0 < n \<Longrightarrow> 2 ^ (bitlen n - 1) \<le> n"
proof (induction n rule: bitlen.induct)
  case (1 n)
  then have n: "n \<noteq> 0"
    by simp
  show ?case
  proof (cases "n div 2 = 0")
    case True
    then have "bitlen (n div 2) = 0"
      by (simp add: bitlen.simps [of 0])
    then show ?thesis
      using n "1.prems" by (simp add: bitlen.simps [of n])
  next
    case False
    then have "2 ^ (bitlen (n div 2) - 1) \<le> n div 2"
      using "1.IH" [OF n] by simp
    moreover from False have "0 < bitlen (n div 2)"
      by (simp add: bitlen.simps [of "n div 2"])
    ultimately have "2 ^ bitlen (n div 2) \<le> 2 * (n div 2)"
      by (cases "bitlen (n div 2)") simp_all
    also have "\<dots> \<le> n"
      by simp
    finally show ?thesis
      using n by (simp add: bitlen.simps [of n])
  qed
qed

lemma bitlen_pos: "0 < n \<Longrightarrow> 0 < bitlen n"
  by (simp add: bitlen.simps [of n])

lemma bitlen_le: "n < 2 ^ k \<Longrightarrow> bitlen n \<le> k"
proof (rule ccontr)
  assume less: "n < 2 ^ k" and "\<not> bitlen n \<le> k"
  then have k: "k \<le> bitlen n - 1" and "0 < bitlen n"
    by simp_all
  then have "0 < n"
    by (cases "n = 0") (simp_all add: bitlen.simps [of 0])
  then have "2 ^ (bitlen n - 1) \<le> n"
    by (rule bitlen_ge)
  moreover have "(2 :: nat) ^ k \<le> 2 ^ (bitlen n - 1)"
    using k by (rule power_increasing) simp
  ultimately have "2 ^ k \<le> n"
    by (rule order_trans [rotated])
  with less show False
    by simp
qed

lemma ratio_less_pow2_Suc: "ratio_less_pow2 a b p \<Longrightarrow> ratio_less_pow2 a b (p + 1)"
proof (cases "0 \<le> p")
  case True
  assume "ratio_less_pow2 a b p"
  with True have "a < b * 2 ^ nat p"
    by (simp add: ratio_less_pow2_def)
  also have "\<dots> \<le> b * 2 ^ Suc (nat p)"
    by simp
  finally show ?thesis
    using True by (simp add: ratio_less_pow2_def nat_add_distrib)
next
  case False
  assume "ratio_less_pow2 a b p"
  moreover from False have "nat (- p) = Suc (nat (- (p + 1)))" and "nat p = 0" and "nat (p + 1) = 0"
    by simp_all
  ultimately have "2 * (a * 2 ^ nat (- (p + 1))) < b"
    by (simp add: ratio_less_pow2_def)
  then have "a * 2 ^ nat (- (p + 1)) < b"
    by simp
  then show ?thesis
    using \<open>nat (p + 1) = 0\<close> by (simp add: ratio_less_pow2_def)
qed

lemma ratio_less_pow2_mono:
  assumes "ratio_less_pow2 a b p" and "p \<le> q"
  shows "ratio_less_pow2 a b q"
proof -
  have "ratio_less_pow2 a b (p + int j)" for j
  proof (induction j)
    case 0
    show ?case by (simp add: assms(1))
  next
    case (Suc j)
    from ratio_less_pow2_Suc [OF Suc] show ?case
      by (simp add: algebra_simps)
  qed
  from this [of "nat (q - p)"] assms(2) show ?thesis
    by simp
qed

lemma pow2_le_ratio_pred: "pow2_le_ratio a b p \<Longrightarrow> pow2_le_ratio a b (p - 1)"
proof (cases "0 < p")
  case True
  assume "pow2_le_ratio a b p"
  moreover from True have "nat p = Suc (nat (p - 1))" and "nat (- p) = 0" and "nat (- (p - 1)) = 0"
    by simp_all
  ultimately have "2 * (b * 2 ^ nat (p - 1)) \<le> a"
    by (simp add: pow2_le_ratio_def)
  then have "b * 2 ^ nat (p - 1) \<le> a"
    by simp
  then show ?thesis
    using \<open>nat (- (p - 1)) = 0\<close> by (simp add: pow2_le_ratio_def)
next
  case False
  assume "pow2_le_ratio a b p"
  with False have "b \<le> a * 2 ^ nat (- p)"
    by (simp add: pow2_le_ratio_def)
  also have "\<dots> \<le> a * 2 ^ Suc (nat (- p))"
    by simp
  also from False have "Suc (nat (- p)) = nat (- (p - 1))"
    by simp
  finally show ?thesis
    using False by (simp add: pow2_le_ratio_def)
qed

lemma pow2_le_ratio_antimono:
  assumes "pow2_le_ratio a b p" and "q \<le> p"
  shows "pow2_le_ratio a b q"
proof -
  have "pow2_le_ratio a b (p - int j)" for j
  proof (induction j)
    case 0
    show ?case by (simp add: assms(1))
  next
    case (Suc j)
    from pow2_le_ratio_pred [OF Suc] show ?case
      by (simp add: algebra_simps)
  qed
  from this [of "nat (p - q)"] assms(2) show ?thesis
    by simp
qed

lemma ratio_less_pow2_bitlen:
  assumes "0 < b"
  shows "ratio_less_pow2 a b (int (bitlen a) - int (bitlen b) + 1)"
proof -
  have a: "a < 2 ^ bitlen a"
    by (rule bitlen_less)
  have b: "2 ^ (bitlen b - 1) \<le> b" and lb: "0 < bitlen b"
    using assms bitlen_ge [of b] bitlen_pos [of b] by simp_all
  show ?thesis
  proof (cases "bitlen b \<le> bitlen a + 1")
    case True
    then have n: "nat (- (int (bitlen a) - int (bitlen b) + 1)) = 0"
      "nat (int (bitlen a) - int (bitlen b) + 1) = bitlen a + 1 - bitlen b"
      by simp_all
    have "bitlen a = (bitlen b - 1) + (bitlen a + 1 - bitlen b)"
      using True lb by simp
    then have "(2 :: nat) ^ bitlen a = 2 ^ (bitlen b - 1) * 2 ^ (bitlen a + 1 - bitlen b)"
      by (metis power_add)
    also have "\<dots> \<le> b * 2 ^ (bitlen a + 1 - bitlen b)"
      using b by (rule mult_le_mono1)
    finally have "a * 2 ^ 0 < b * 2 ^ (bitlen a + 1 - bitlen b)"
      using a by simp
    then show ?thesis
      unfolding ratio_less_pow2_def n .
  next
    case False
    then have n: "nat (int (bitlen a) - int (bitlen b) + 1) = 0"
      "nat (- (int (bitlen a) - int (bitlen b) + 1)) = bitlen b - 1 - bitlen a"
      by simp_all
    have "a * 2 ^ (bitlen b - 1 - bitlen a) < 2 ^ bitlen a * 2 ^ (bitlen b - 1 - bitlen a)"
      using a by simp
    also have "\<dots> = 2 ^ (bitlen a + (bitlen b - 1 - bitlen a))"
      by (simp add: power_add)
    also have "bitlen a + (bitlen b - 1 - bitlen a) = bitlen b - 1"
      using False by simp
    finally have "a * 2 ^ (bitlen b - 1 - bitlen a) < b * 2 ^ 0"
      using b by simp
    then show ?thesis
      unfolding ratio_less_pow2_def n .
  qed
qed

lemma pow2_le_ratio_bitlen:
  assumes "0 < a"
  shows "pow2_le_ratio a b (int (bitlen a) - int (bitlen b) - 1)"
proof -
  have b: "b < 2 ^ bitlen b"
    by (rule bitlen_less)
  have a: "2 ^ (bitlen a - 1) \<le> a" and la: "0 < bitlen a"
    using assms bitlen_ge [of a] bitlen_pos [of a] by simp_all
  show ?thesis
  proof (cases "bitlen b + 1 \<le> bitlen a")
    case True
    then have n: "nat (- (int (bitlen a) - int (bitlen b) - 1)) = 0"
      "nat (int (bitlen a) - int (bitlen b) - 1) = bitlen a - 1 - bitlen b"
      by simp_all
    have "b * 2 ^ (bitlen a - 1 - bitlen b) \<le> 2 ^ bitlen b * 2 ^ (bitlen a - 1 - bitlen b)"
      using b by simp
    also have "\<dots> = 2 ^ (bitlen b + (bitlen a - 1 - bitlen b))"
      by (simp add: power_add)
    also have "bitlen b + (bitlen a - 1 - bitlen b) = bitlen a - 1"
      using True by simp
    finally have "b * 2 ^ (bitlen a - 1 - bitlen b) \<le> a * 2 ^ 0"
      using a by simp
    then show ?thesis
      unfolding pow2_le_ratio_def n .
  next
    case False
    then have n: "nat (int (bitlen a) - int (bitlen b) - 1) = 0"
      "nat (- (int (bitlen a) - int (bitlen b) - 1)) = bitlen b + 1 - bitlen a"
      by simp_all
    have "bitlen b = (bitlen a - 1) + (bitlen b + 1 - bitlen a)"
      using False la by simp
    then have "(2 :: nat) ^ bitlen b = 2 ^ (bitlen a - 1) * 2 ^ (bitlen b + 1 - bitlen a)"
      by (metis power_add)
    also have "\<dots> \<le> a * 2 ^ (bitlen b + 1 - bitlen a)"
      using a by (rule mult_le_mono1)
    finally have "b * 2 ^ 0 \<le> a * 2 ^ (bitlen b + 1 - bitlen a)"
      using b by simp
    then show ?thesis
      unfolding pow2_le_ratio_def n .
  qed
qed

lemma floor_log2_ratio_range:
  "int (bitlen a) - int (bitlen b) - 1 \<le> floor_log2_ratio a b \<and>
   floor_log2_ratio a b \<le> int (bitlen a) - int (bitlen b)"
  by (simp add: floor_log2_ratio_def Let_def)

lemma floor_log2_ratio_bounds:
  assumes "0 < a" and "0 < b"
  shows "pow2_le_ratio a b (floor_log2_ratio a b)"
    and "ratio_less_pow2 a b (floor_log2_ratio a b + 1)"
proof -
  let ?t = "int (bitlen a) - int (bitlen b)"
  show "pow2_le_ratio a b (floor_log2_ratio a b)"
    using pow2_le_ratio_bitlen [OF assms(1), of b]
    by (simp add: floor_log2_ratio_def Let_def pow2_le_ratio_def)
  show "ratio_less_pow2 a b (floor_log2_ratio a b + 1)"
    using ratio_less_pow2_bitlen [OF assms(2), of a]
    by (simp add: floor_log2_ratio_def Let_def ratio_less_pow2_def not_le)
qed

lemma ratio_less_pow2_shift:
  "ratio_less_pow2 a b (k + int j) \<Longrightarrow> a * 2 ^ nat (- k) < 2 ^ j * (b * 2 ^ nat k)"
proof (induction j arbitrary: k)
  case 0
  then show ?case
    by (simp add: ratio_less_pow2_def)
next
  case (Suc j)
  then have "ratio_less_pow2 a b (k + 1 + int j)"
    by (simp add: algebra_simps)
  then have IH: "a * 2 ^ nat (- (k + 1)) < 2 ^ j * (b * 2 ^ nat (k + 1))"
    by (rule Suc.IH)
  show ?case
  proof (cases "0 \<le> k")
    case True
    then have "nat (- (k + 1)) = 0" "nat (- k) = 0" "nat (k + 1) = Suc (nat k)"
      by simp_all
    with IH show ?thesis
      by (simp add: mult_ac)
  next
    case False
    then have "nat (k + 1) = 0" "nat k = 0" "nat (- k) = Suc (nat (- (k + 1)))"
      by simp_all
    with IH show ?thesis
      by simp
  qed
qed

lemma pow2_le_ratio_shift:
  "pow2_le_ratio a b (k + int j) \<Longrightarrow> 2 ^ j * (b * 2 ^ nat k) \<le> a * 2 ^ nat (- k)"
proof (induction j arbitrary: k)
  case 0
  then show ?case
    by (simp add: pow2_le_ratio_def)
next
  case (Suc j)
  then have "pow2_le_ratio a b (k + 1 + int j)"
    by (simp add: algebra_simps)
  then have IH: "2 ^ j * (b * 2 ^ nat (k + 1)) \<le> a * 2 ^ nat (- (k + 1))"
    by (rule Suc.IH)
  show ?case
  proof (cases "0 \<le> k")
    case True
    then have "nat (- (k + 1)) = 0" "nat (- k) = 0" "nat (k + 1) = Suc (nat k)"
      by simp_all
    with IH show ?thesis
      by (simp add: mult_ac)
  next
    case False
    then have "nat (k + 1) = 0" "nat k = 0" "nat (- k) = Suc (nat (- (k + 1)))"
      by simp_all
    with IH show ?thesis
      by simp
  qed
qed

subsection \<open>Rounding gives a double of the format\<close>

lemma round_half_even_div_range:
  "a div b \<le> round_half_even_div a b \<and> round_half_even_div a b \<le> a div b + 1"
  by (simp add: round_half_even_div_def Let_def)

lemma round_f64_rounded_below:
  assumes "0 < a" and "0 < b"
  shows "round_half_even_div
           (a * 2 ^ nat (- max (floor_log2_ratio a b - 52) (- 1074)))
           (b * 2 ^ nat (max (floor_log2_ratio a b - 52) (- 1074))) \<le> 2 ^ 53"
proof -
  let ?k = "max (floor_log2_ratio a b - 52) (- 1074)"
  let ?A = "a * 2 ^ nat (- ?k)" and ?B = "b * 2 ^ nat ?k"
  have "ratio_less_pow2 a b (floor_log2_ratio a b + 1)"
    using assms by (rule floor_log2_ratio_bounds)
  then have "ratio_less_pow2 a b (?k + int 53)"
    by (rule ratio_less_pow2_mono) simp
  then have "?A < 2 ^ 53 * ?B"
    by (rule ratio_less_pow2_shift)
  then have "?A div ?B < 2 ^ 53"
    by (simp only: less_mult_imp_div_less mult.commute [of "2 ^ 53"])
  then show ?thesis
    using round_half_even_div_range [of ?A ?B] by linarith
qed

lemma round_f64_cases:
  assumes "0 < a"
  obtains (carry) k where "k = max (floor_log2_ratio a b - 52) (- 1074)"
      and "round_half_even_div (a * 2 ^ nat (- k)) (b * 2 ^ nat k) = 2 ^ 53"
      and "round_f64 s a b = (if 971 < k + 1 then Infinity s else Finite s (2 ^ 52) (k + 1))"
    | (plain) k m where "k = max (floor_log2_ratio a b - 52) (- 1074)"
      and "m = round_half_even_div (a * 2 ^ nat (- k)) (b * 2 ^ nat k)" and "m \<noteq> 2 ^ 53"
      and "round_f64 s a b = (if 971 < k then Infinity s else Finite s m k)"
proof -
  define k where "k = max (floor_log2_ratio a b - 52) (- 1074)"
  define m where "m = round_half_even_div (a * 2 ^ nat (- k)) (b * 2 ^ nat k)"
  have r: "round_f64 s a b =
      (if 971 < (if m = 2 ^ 53 then k + 1 else k) then Infinity s
       else Finite s (if m = 2 ^ 53 then 2 ^ 52 else m) (if m = 2 ^ 53 then k + 1 else k))"
  proof -
    from assms have "a \<noteq> 0"
      by simp
    then show ?thesis
      unfolding round_f64_def Let_def k_def m_def by (rule if_not_P)
  qed
  show thesis
  proof (cases "m = 2 ^ 53")
    case True
    have 1: "round_half_even_div (a * 2 ^ nat (- k)) (b * 2 ^ nat k) = 2 ^ 53"
      using True by (simp only: m_def)
    have 2: "round_f64 s a b = (if 971 < k + 1 then Infinity s else Finite s (2 ^ 52) (k + 1))"
      using r True by simp
    show ?thesis
      using k_def 1 2 by (rule carry)
  next
    case False
    have 2: "round_f64 s a b = (if 971 < k then Infinity s else Finite s m k)"
      using r False by simp
    show ?thesis
      using k_def m_def False 2 by (rule plain)
  qed
qed

lemma round_f64_wf:
  assumes "0 < b" and "round_f64 s a b = Finite t m e"
  shows "t = s \<and> m < 2 ^ 53 \<and> - 1074 \<le> e \<and> e \<le> 971"
proof (cases "a = 0")
  case True
  with assms(2) show ?thesis
    by (simp add: round_f64_def)
next
  case False
  then have a: "0 < a"
    by simp
  from a show ?thesis
  proof (cases rule: round_f64_cases [where b = b and s = s])
    case (carry k)
    have "- 1074 \<le> k"
      unfolding carry(1) by simp
    moreover from carry(3) assms(2) have "t = s \<and> m = 2 ^ 52 \<and> e = k + 1 \<and> k + 1 \<le> 971"
      by (simp split: if_splits)
    ultimately show ?thesis
      by simp
  next
    case (plain k m')
    have "- 1074 \<le> k"
      unfolding plain(1) by simp
    moreover have "m' \<le> 2 ^ 53"
      unfolding plain(1,2) using a assms(1) by (rule round_f64_rounded_below)
    with plain(3) have "m' < 2 ^ 53"
      by simp
    moreover from plain(4) assms(2) have "t = s \<and> m = m' \<and> e = k \<and> k \<le> 971"
      by (simp split: if_splits)
    ultimately show ?thesis
      by simp
  qed
qed

lemma round_f64_finite:
  assumes "floor_log2_ratio a b \<le> 1022"
  shows "\<exists>m e. round_f64 s a b = Finite s m e"
proof (cases "a = 0")
  case True
  then show ?thesis
    by (simp add: round_f64_def)
next
  case False
  then have "0 < a"
    by simp
  then show ?thesis
  proof (cases rule: round_f64_cases [where b = b and s = s])
    case (carry k)
    have "k \<le> 970"
      unfolding carry(1) using assms by simp
    with carry(3) show ?thesis
      by simp
  next
    case (plain k m')
    have "k \<le> 970"
      unfolding plain(1) using assms by simp
    with plain(4) show ?thesis
      by simp
  qed
qed

lemma round_f64_normal:
  assumes "0 < a" and "0 < b" and "- 1022 \<le> floor_log2_ratio a b"
    and "round_f64 s a b = Finite t m e"
  shows "2 ^ 52 \<le> m \<and> floor_log2_ratio a b - 52 \<le> e \<and> e \<le> floor_log2_ratio a b - 51"
proof -
  let ?k = "floor_log2_ratio a b - 52"
  let ?A = "a * 2 ^ nat (- ?k)" and ?B = "b * 2 ^ nat ?k"
  have k: "max ?k (- 1074) = ?k"
    using assms(3) by simp
  have "pow2_le_ratio a b (?k + int 52)"
    using floor_log2_ratio_bounds(1) [OF assms(1,2)] by simp
  then have "2 ^ 52 * ?B \<le> ?A"
    by (rule pow2_le_ratio_shift)
  moreover have "0 < ?B"
    using assms(2) by simp
  ultimately have "2 ^ 52 \<le> ?A div ?B"
    by (simp only: less_eq_div_iff_mult_less_eq)
  then have low: "2 ^ 52 \<le> round_half_even_div ?A ?B"
    using round_half_even_div_range [of ?A ?B] by linarith
  from assms(1) show ?thesis
  proof (cases rule: round_f64_cases [where b = b and s = s])
    case (carry k')
    have "k' = ?k"
      unfolding carry(1) by (rule k)
    moreover from carry(3) assms(4) have "m = 2 ^ 52 \<and> e = k' + 1"
      by (simp split: if_splits)
    ultimately show ?thesis
      by simp
  next
    case (plain k' m')
    have k': "k' = ?k"
      unfolding plain(1) by (rule k)
    have "2 ^ 52 \<le> m'"
      unfolding plain(2) k' by (rule low)
    moreover from plain(4) assms(4) have "m = m' \<and> e = k'"
      by (simp split: if_splits)
    ultimately show ?thesis
      using k' by simp
  qed
qed

lemma pow2_le_pos: "2 ^ k \<le> m \<Longrightarrow> 0 < (m :: nat)"
  by (rule less_le_trans [of 0 "2 ^ k"]) simp_all

lemma bitlen_eq:
  assumes "2 ^ k \<le> n" and "n < 2 ^ Suc k"
  shows "bitlen n = Suc k"
proof (rule antisym)
  show "bitlen n \<le> Suc k"
    using assms(2) by (rule bitlen_le)
  show "Suc k \<le> bitlen n"
  proof (rule ccontr)
    assume "\<not> Suc k \<le> bitlen n"
    then have "bitlen n \<le> k"
      by simp
    then have "(2 :: nat) ^ bitlen n \<le> 2 ^ k"
      by (rule power_increasing) simp
    with bitlen_less [of n] assms(1) show False
      by simp
  qed
qed

lemma bitlen_mult_pow2:
  assumes "0 < m"
  shows "bitlen (m * 2 ^ j) = bitlen m + j"
proof -
  from assms have "0 < bitlen m" and lo: "2 ^ (bitlen m - 1) \<le> m"
    using bitlen_pos [of m] bitlen_ge [of m] by simp_all
  then obtain k where k: "bitlen m = Suc k"
    by (cases "bitlen m") simp_all
  have "2 ^ (k + j) \<le> m * 2 ^ j"
    using lo by (simp add: k power_add)
  moreover have "m * 2 ^ j < 2 ^ Suc (k + j)"
    using bitlen_less [of m] by (simp add: k power_add)
  ultimately have "bitlen (m * 2 ^ j) = Suc (k + j)"
    by (rule bitlen_eq)
  then show ?thesis
    by (simp add: k)
qed

lemma bitlen_pow2: "bitlen (2 ^ j) = Suc j"
  by (rule bitlen_eq) simp_all

lemma bitlen_mantissa: "2 ^ 52 \<le> m \<Longrightarrow> m < 2 ^ 53 \<Longrightarrow> bitlen m = 53"
  using bitlen_eq [of 52 m] by simp

lemma round_f64_normal_range:
  assumes "0 < a" and "0 < b"
    and "lo \<le> int (bitlen a) - int (bitlen b) - 1" and "- 1022 \<le> lo"
    and "int (bitlen a) - int (bitlen b) \<le> hi" and "hi \<le> 1022"
  shows "f64_normal (lo - 52) (hi - 51) (round_f64 False a b)"
proof -
  note r = floor_log2_ratio_range [of a b]
  from r assms(5,6) have "floor_log2_ratio a b \<le> 1022"
    by simp
  then obtain m e where f: "round_f64 False a b = Finite False m e"
    using round_f64_finite by blast
  from r assms(3,4) have "- 1022 \<le> floor_log2_ratio a b"
    by simp
  from round_f64_normal [OF assms(1,2) this f] round_f64_wf [OF assms(2) f] r assms(3,5)
  have "2 ^ 52 \<le> m \<and> m < 2 ^ 53 \<and> lo - 52 \<le> e \<and> e \<le> hi - 51"
    by simp
  with f show ?thesis
    unfolding f64_normal_def by blast
qed

lemma f64_of_nat_normal:
  assumes "0 < n" and "n < 2 ^ 64"
  shows "f64_normal (- 53) 12 (f64_of_nat n)"
proof -
  have b: "bitlen (Suc 0) = 1"
    by (simp add: bitlen.simps [of "Suc 0"] bitlen.simps [of 0])
  have "0 < bitlen n" and "bitlen n \<le> 64"
    using assms by (simp_all add: bitlen_pos bitlen_le)
  then have "f64_normal (- 1 - 52) (63 - 51) (round_f64 False n (Suc 0))"
    using assms(1) by (intro round_f64_normal_range) (simp_all add: b)
  then show ?thesis
    by (simp add: f64_of_nat_def)
qed

lemma f64_of_u64_normal: "w \<noteq> 0 \<Longrightarrow> f64_normal (- 53) 12 (f64_of_u64 w)"
  unfolding f64_of_u64_def
  using unsigned_less [of w, where ?'a = nat]
  by (intro f64_of_nat_normal) (simp_all add: unat_gt_0)

lemma f64_of_u64_zero: "f64_of_u64 0 = zero_f64"
  by (simp add: f64_of_u64_def f64_of_nat_0)

lemma f64_normal_div:
  assumes "f64_normal l1 h1 x" and "f64_normal l2 h2 y"
    and "- 1022 \<le> l1 - h2 - 1" and "h1 - l2 \<le> 1022"
  shows "f64_normal (l1 - h2 - 53) (h1 - l2 - 51) (f64_div x y)"
proof -
  from assms(1) obtain m1 e1 where x: "x = Finite False m1 e1"
    and m1: "2 ^ 52 \<le> m1" "m1 < 2 ^ 53" and e1: "l1 \<le> e1" "e1 \<le> h1"
    unfolding f64_normal_def by blast
  from assms(2) obtain m2 e2 where y: "y = Finite False m2 e2"
    and m2: "2 ^ 52 \<le> m2" "m2 < 2 ^ 53" and e2: "l2 \<le> e2" "e2 \<le> h2"
    unfolding f64_normal_def by blast
  let ?a = "m1 * 2 ^ nat (e1 - e2)" and ?b = "m2 * 2 ^ nat (e2 - e1)"
  have pos: "0 < m1" "0 < m2"
    using pow2_le_pos [OF m1(1)] pow2_le_pos [OF m2(1)] by simp_all
  have la: "bitlen ?a = 53 + nat (e1 - e2)" and lb: "bitlen ?b = 53 + nat (e2 - e1)"
    using pos m1 m2 by (simp_all add: bitlen_mult_pow2 bitlen_mantissa)
  have d: "int (bitlen ?a) - int (bitlen ?b) = e1 - e2"
    unfolding la lb by simp
  have "f64_normal (l1 - h2 - 1 - 52) (h1 - l2 - 51) (round_f64 False ?a ?b)"
    using pos e1 e2 assms(3,4)
    by (intro round_f64_normal_range) (simp_all add: d)
  moreover have "f64_div x y = round_f64 False ?a ?b"
    using pos(2) by (simp add: x y f64_div_Finite)
  ultimately show ?thesis
    by simp
qed

lemma f64_normal_mul:
  assumes "f64_normal l1 h1 x" and "f64_normal l2 h2 y"
    and "- 1022 \<le> l1 + l2 + 103" and "h1 + h2 + 105 \<le> 1022"
  shows "f64_normal (l1 + l2 + 51) (h1 + h2 + 54) (f64_mul x y)"
proof -
  from assms(1) obtain m1 e1 where x: "x = Finite False m1 e1"
    and m1: "2 ^ 52 \<le> m1" "m1 < 2 ^ 53" and e1: "l1 \<le> e1" "e1 \<le> h1"
    unfolding f64_normal_def by blast
  from assms(2) obtain m2 e2 where y: "y = Finite False m2 e2"
    and m2: "2 ^ 52 \<le> m2" "m2 < 2 ^ 53" and e2: "l2 \<le> e2" "e2 \<le> h2"
    unfolding f64_normal_def by blast
  let ?a = "m1 * m2 * 2 ^ nat (e1 + e2)" and ?b = "2 ^ nat (- (e1 + e2))"
  have "2 ^ 52 * 2 ^ 52 \<le> m1 * m2"
    using m1(1) m2(1) by (rule mult_le_mono)
  then have lo: "2 ^ 104 \<le> m1 * m2"
    by simp
  have "m1 * m2 < 2 ^ 53 * 2 ^ 53"
    using m1(2) m2(2) by (intro mult_strict_mono) simp_all
  then have hi: "m1 * m2 < 2 ^ 106"
    by simp
  have "0 < m1" "0 < m2"
    using pow2_le_pos [OF m1(1)] pow2_le_pos [OF m2(1)] by simp_all
  then have pos: "0 < m1 * m2"
    by simp
  have "bitlen (m1 * m2) \<le> 106"
    using hi by (rule bitlen_le)
  moreover have "105 \<le> bitlen (m1 * m2)"
  proof (rule ccontr)
    assume "\<not> 105 \<le> bitlen (m1 * m2)"
    then have "bitlen (m1 * m2) \<le> 104"
      by simp
    then have "(2 :: nat) ^ bitlen (m1 * m2) \<le> 2 ^ 104"
      by (rule power_increasing) simp
    with bitlen_less [of "m1 * m2"] lo show False
      by simp
  qed
  moreover have "bitlen ?a = bitlen (m1 * m2) + nat (e1 + e2)"
    using pos by (rule bitlen_mult_pow2)
  moreover have "bitlen ?b = Suc (nat (- (e1 + e2)))"
    by (rule bitlen_pow2)
  ultimately have d: "104 + (e1 + e2) \<le> int (bitlen ?a) - int (bitlen ?b)"
    "int (bitlen ?a) - int (bitlen ?b) \<le> 105 + (e1 + e2)"
    by simp_all
  have "f64_normal (l1 + l2 + 103 - 52) (h1 + h2 + 105 - 51) (round_f64 False ?a ?b)"
    using pos d e1 e2 assms(3,4) by (intro round_f64_normal_range) simp_all
  moreover have "f64_mul x y = round_f64 False ?a ?b"
    by (simp add: x y f64_mul_Finite)
  ultimately show ?thesis
    by (simp add: algebra_simps)
qed

lemma f64_div_zero_normal:
  assumes "f64_normal lo hi y"
  shows "f64_div zero_f64 y = zero_f64"
proof -
  from assms obtain m e where y: "y = Finite False m e" and "2 ^ 52 \<le> m"
    unfolding f64_normal_def by blast
  then have "m \<noteq> 0"
    using pow2_le_pos [of 52 m] by simp
  then show ?thesis
    by (simp add: zero_f64_def y f64_div_Finite round_f64_def)
qed

lemma f64_mul_zero_normal:
  assumes "f64_normal lo hi y"
  shows "f64_mul zero_f64 y = zero_f64"
proof -
  from assms obtain m e where y: "y = Finite False m e"
    unfolding f64_normal_def by blast
  show ?thesis
    by (simp add: zero_f64_def y f64_mul_Finite round_f64_def)
qed

lemma f64_normal_100: "f64_normal (- 46) (- 46) (f64_of_nat 100)"
  by (simp add: f64_of_nat_100 f64_normal_def)


lemma percent_zero_or_normal:
  assumes "b \<noteq> 0"
  shows "f64_mul (f64_div (f64_of_u64 a) (f64_of_u64 b)) (f64_of_nat 100) = zero_f64 \<or>
     f64_normal (- 113) 22 (f64_mul (f64_div (f64_of_u64 a) (f64_of_u64 b)) (f64_of_nat 100))"
proof (cases "a = 0")
  case True
  have "f64_div zero_f64 (f64_of_u64 b) = zero_f64"
    using f64_of_u64_normal [OF assms] by (rule f64_div_zero_normal)
  moreover have "f64_mul zero_f64 (f64_of_nat 100) = zero_f64"
    using f64_normal_100 by (rule f64_mul_zero_normal)
  ultimately show ?thesis
    by (simp add: True f64_of_u64_zero)
next
  case False
  have "f64_normal (- 53 - 12 - 53) (12 - (- 53) - 51) (f64_div (f64_of_u64 a) (f64_of_u64 b))"
    using f64_of_u64_normal [OF False] f64_of_u64_normal [OF assms]
    by (rule f64_normal_div) simp_all
  then have "f64_normal (- 118) 14 (f64_div (f64_of_u64 a) (f64_of_u64 b))"
    by simp
  then have "f64_normal (- 118 + (- 46) + 51) (14 + (- 46) + 54)
      (f64_mul (f64_div (f64_of_u64 a) (f64_of_u64 b)) (f64_of_nat 100))"
    using f64_normal_100 by (rule f64_normal_mul) simp_all
  then show ?thesis
    by simp
qed


lemma sprintf_f_1_one_decimal: "one_decimal (sprintf_f 1 (Finite False m e))"
proof -
  define n where "n = round_half_even_div (m * 10 ^ 1 * 2 ^ nat e) (2 ^ nat (- e))"
  have d: "n mod 10 < 10"
    by simp
  then have "sprintf_d (n mod 10) = [digit_char (n mod 10)]"
    by (simp add: sprintf_d.simps [of "n mod 10"])
  then have "sprintf_f 1 (Finite False m e) = sprintf_d (n div 10) @ ''.'' @ [digit_char (n mod 10)]"
    by (simp add: sprintf_f_Finite Let_def n_def)
  with d show ?thesis
    unfolding one_decimal_def by blast
qed

subsection \<open>Signs\<close>







section \<open>Properties of the byte formatter\<close>

lemma formatBytes_loop_steps:
  "formatBytes_loop n dv exp = (dv * 1024 ^ unit_steps (unat n), exp + unit_steps (unat n))"
proof (induction n dv exp rule: formatBytes_loop.induct)
  case (1 n dv exp)
  show ?case
  proof (cases "1024 \<le> n")
    case True
    then have "\<not> unat n < 1024"
      by (simp add: word_le_nat_alt)
    then have "unit_steps (unat n) = Suc (unit_steps (unat n div 1024))"
      by (simp add: unit_steps.simps [of "unat n"])
    moreover have "unat (n div 1024) = unat n div 1024"
      by (simp add: unat_div)
    ultimately show ?thesis
      using True "1.IH" [OF True]
      by (simp add: formatBytes_loop.simps [of n] mult.assoc)
  next
    case False
    then have "unat n < 1024"
      by (simp add: word_le_nat_alt)
    then have "unit_steps (unat n) = 0"
      by (simp add: unit_steps.simps [of "unat n"])
    then show ?thesis
      using False by (simp add: formatBytes_loop.simps [of n])
  qed
qed

lemma unit_steps_le: "n < 1024 ^ Suc k \<Longrightarrow> unit_steps n \<le> k"
proof (induction k arbitrary: n)
  case 0
  then show ?case
    by (simp add: unit_steps.simps [of n])
next
  case (Suc k)
  show ?case
  proof (cases "n < 1024")
    case True
    then show ?thesis
      by (simp add: unit_steps.simps [of n])
  next
    case False
    from Suc.prems have "n div 1024 < 1024 ^ Suc k"
      by (simp add: less_mult_imp_div_less mult.commute)
    then have "unit_steps (n div 1024) \<le> k"
      by (rule Suc.IH)
    then show ?thesis
      using False by (simp add: unit_steps.simps [of n])
  qed
qed

lemma unit_steps_bounds: "0 < n \<Longrightarrow> 1024 ^ unit_steps n \<le> n \<and> n < 1024 ^ Suc (unit_steps n)"
proof (induction n rule: unit_steps.induct)
  case (1 n)
  show ?case
  proof (cases "n < 1024")
    case True
    then show ?thesis
      using "1.prems" by (simp add: unit_steps.simps [of n])
  next
    case False
    then have pos: "0 < n div 1024"
      by (simp add: div_greater_zero_iff)
    have s: "unit_steps n = Suc (unit_steps (n div 1024))"
      using False by (simp add: unit_steps.simps [of n])
    from "1.IH" [OF False pos]
    have lo: "1024 ^ unit_steps (n div 1024) \<le> n div 1024"
      and hi: "n div 1024 < 1024 ^ Suc (unit_steps (n div 1024))"
      by simp_all
    from lo have "1024 * 1024 ^ unit_steps (n div 1024) \<le> 1024 * (n div 1024)"
      by simp
    also have "\<dots> \<le> n"
      by simp
    finally have a: "1024 ^ unit_steps n \<le> n"
      by (simp add: s)
    from hi have "n < 1024 * 1024 ^ Suc (unit_steps (n div 1024))"
      by (simp add: div_less_iff_less_mult mult.commute)
    then have b: "n < 1024 ^ Suc (unit_steps n)"
      by (simp add: s)
    from a b show ?thesis ..
  qed
qed

lemma unat_u64_less: "unat (w :: 64 word) < 1024 ^ 7"
proof -
  have "unat w < 2 ^ 64"
    using unsigned_less [of w, where ?'a = nat] by simp
  also have "(2 :: nat) ^ 64 \<le> 1024 ^ 7"
    by simp
  finally show ?thesis .
qed

lemma unit_steps_u64: "unit_steps (unat (w :: 64 word)) \<le> 6"
  using unat_u64_less [of w] by (intro unit_steps_le) simp

lemma unit_steps_u64_div: "unit_steps (unat (w :: 64 word) div 1024) \<le> 5"
proof (rule unit_steps_le)
  have "unat w < 1024 * 1024 ^ 6"
    using unat_u64_less [of w] by simp
  then show "unat w div 1024 < 1024 ^ Suc 5"
    by (simp add: less_mult_imp_div_less mult.commute)
qed

lemma sint_pow_1024:
  "k \<le> 6 \<Longrightarrow> sint ((1024 :: 64 word) ^ k) = 1024 ^ k"
proof -
  assume "k \<le> 6"
  then consider "k = 0" | "k = 1" | "k = 2" | "k = 3" | "k = 4" | "k = 5" | "k = 6"
    by linarith
  then show ?thesis
    by cases simp_all
qed

lemma f64_of_i64_pow_1024:
  "k \<le> 6 \<Longrightarrow> f64_of_i64 (1024 ^ k) = f64_of_nat (1024 ^ k)"
  by (simp add: f64_of_i64_def f64_of_nat_def sint_pow_1024 nat_power_eq)

lemma suffix_of_exp:
  "exp \<le> 5 \<Longrightarrow>
   string_index ''KMGTPE'' exp = Inr (''KMGTPE'' ! exp) \<and>
   [''KMGTPE'' ! exp] @ ''iB'' = unit_suffixes ! Suc exp"
proof -
  assume "exp \<le> 5"
  then consider "exp = 0" | "exp = 1" | "exp = 2" | "exp = 3" | "exp = 4" | "exp = 5"
    by linarith
  then show ?thesis
    by cases (simp_all add: string_index_def unit_suffixes_def)
qed

lemma formatBytes_small:
  "bytes < 1024 \<Longrightarrow> formatBytes bytes = Inr (sprintf_d (unat bytes) @ '' B'')"
  by (simp add: formatBytes_def)

lemma formatBytes_refines_spec: "formatBytes bytes = Inr (formatBytes_spec (unat bytes))"
proof (cases "bytes < 1024")
  case True
  then have "unat bytes < 1024"
    by (simp add: word_less_nat_alt)
  then have "unit_steps (unat bytes) = 0"
    by (simp add: unit_steps.simps [of "unat bytes"])
  then show ?thesis
    using True by (simp add: formatBytes_def formatBytes_spec_def)
next
  case False
  define exp where "exp = unit_steps (unat bytes div 1024)"
  have e5: "exp \<le> 5"
    unfolding exp_def by (rule unit_steps_u64_div)
  from False have "\<not> unat bytes < 1024"
    by (simp add: word_less_nat_alt)
  then have k: "unit_steps (unat bytes) = Suc exp"
    by (simp add: unit_steps.simps [of "unat bytes"] exp_def)
  have loop: "formatBytes_loop (bytes div 1024) 1024 0 = (1024 ^ Suc exp, exp)"
    by (simp add: formatBytes_loop_steps unat_div exp_def)
  have dv: "f64_of_i64 (1024 ^ Suc exp) = f64_of_nat (1024 ^ Suc exp)"
    using e5 by (intro f64_of_i64_pow_1024) simp
  show ?thesis
    using False suffix_of_exp [OF e5] dv
    by (simp add: formatBytes_def formatBytes_spec_def loop k f64_of_u64_def
        del: power_Suc)
qed

lemma f64_of_nat_1024: "f64_of_nat 1024 = Finite False 4503599627370496 (- 42)"
  by (simp add: f64_of_nat_def round_f64_eval)

lemma f64_of_nat_1536: "f64_of_nat 1536 = Finite False 6755399441055744 (- 42)"
  by (simp add: f64_of_nat_def round_f64_eval)

lemma f64_of_nat_1048576: "f64_of_nat 1048576 = Finite False 4503599627370496 (- 32)"
  by (simp add: f64_of_nat_def round_f64_eval)

lemma f64_one_of_div: "f64_div (Finite False 4503599627370496 e) (Finite False 4503599627370496 e) =
    Finite False 4503599627370496 (- 52)"
  by (simp add: f64_div_Finite) (simp add: round_f64_eval)

lemma f64_1536_div_1024:
  "f64_div (Finite False 6755399441055744 (- 42)) (Finite False 4503599627370496 (- 42)) =
    Finite False 6755399441055744 (- 52)"
  by (simp add: f64_div_Finite) (simp add: round_f64_eval)

lemma sprintf_f_one: "sprintf_f 1 (Finite False 4503599627370496 (- 52)) = ''1.0''"
  by (simp add: sprintf_f_Finite) (simp add: round_half_even_div_def sprintf_d_eval)

lemma sprintf_f_one_and_half: "sprintf_f 1 (Finite False 6755399441055744 (- 52)) = ''1.5''"
  by (simp add: sprintf_f_Finite) (simp add: round_half_even_div_def sprintf_d_eval)

lemma unit_steps_examples:
  "unit_steps 0 = 0" "unit_steps 1023 = 0" "unit_steps 1024 = 1" "unit_steps 1536 = 1"
  "unit_steps 1048576 = 2"
  by (simp_all add: unit_steps.simps)

lemma formatBytes_spec_examples:
  "formatBytes_spec 0 = ''0 B''"
  "formatBytes_spec 1023 = ''1023 B''"
  "formatBytes_spec 1024 = ''1.0 KiB''"
  "formatBytes_spec 1048576 = ''1.0 MiB''"
  "formatBytes_spec 1536 = ''1.5 KiB''"
  by (simp_all add: formatBytes_spec_def unit_steps_examples sprintf_d_eval unit_suffixes_def
      f64_of_nat_1024 f64_of_nat_1536 f64_of_nat_1048576 f64_one_of_div f64_1536_div_1024
      sprintf_f_one [unfolded One_nat_def] sprintf_f_one_and_half [unfolded One_nat_def])

lemma formatBytes_spec_one_decimal:
  assumes "1024 \<le> b" and "b < 2 ^ 64"
  shows "\<exists>t. one_decimal t \<and> formatBytes_spec b = t @ '' '' @ unit_suffixes ! unit_steps b"
proof -
  define k where "k = unit_steps b"
  have k: "0 < k" "k \<le> 6"
    using assms unit_steps_le [of b 6] by (simp_all add: k_def unit_steps.simps [of b])
  have "0 < b"
    using assms(1) by simp
  then have x: "f64_normal (- 53) 12 (f64_of_nat b)"
    using assms(2) by (rule f64_of_nat_normal)
  have "(1024 :: nat) ^ k \<le> 1024 ^ 6"
    using k(2) by (intro power_increasing) simp_all
  then have "(1024 :: nat) ^ k < 2 ^ 64"
    by simp
  then have y: "f64_normal (- 53) 12 (f64_of_nat (1024 ^ k))"
    by (intro f64_of_nat_normal) simp_all
  have "f64_normal (- 53 - 12 - 53) (12 - (- 53) - 51) (f64_div (f64_of_nat b) (f64_of_nat (1024 ^ k)))"
    using x y by (rule f64_normal_div) simp_all
  then obtain m e where "f64_div (f64_of_nat b) (f64_of_nat (1024 ^ k)) = Finite False m e"
    unfolding f64_normal_def by blast
  then have "one_decimal (sprintf_f 1 (f64_div (f64_of_nat b) (f64_of_nat (1024 ^ k))))"
    by (simp only: sprintf_f_1_one_decimal)
  then show ?thesis
    using k(1) by (auto simp: formatBytes_spec_def Let_def k_def)
qed

text \<open>
  C6. The byte formatter uses binary units, one decimal place and the suffixes
  B, KiB, MiB, GiB, TiB, PiB, EiB. For every \<^verbatim>\<open>uint64\<close> the result of \<^verbatim>\<open>formatBytes\<close> is the
  text the specification describes: with \<open>k\<close> the number of divisions by 1024 until the
  quotient is below 1024, the decimal number and \<^verbatim>\<open>B\<close> when \<open>k = 0\<close>, and otherwise the
  value divided by \<open>1024\<^sup>k\<close>, printed with one decimal place, and the \<open>k\<close>-th suffix; \<open>k\<close> is
  at most 6, the last suffix. From 1024 on the quotient is a finite double, so the text
  is a decimal number with exactly one digit after the point, a space and the suffix.
  In particular 0 gives \<^verbatim>\<open>0 B\<close>, 1023 gives \<^verbatim>\<open>1023 B\<close>, 1024 gives \<^verbatim>\<open>1.0 KiB\<close>, 1048576
  gives \<^verbatim>\<open>1.0 MiB\<close> and 1536 gives \<^verbatim>\<open>1.5 KiB\<close>.
\<close>

theorem formatBytes_binary_units:
  "formatBytes bytes = Inr (formatBytes_spec (unat bytes)) \<and>
   unit_steps (unat bytes) < length unit_suffixes \<and>
   (1024 \<le> bytes \<longrightarrow>
      (\<exists>t. one_decimal t \<and>
         formatBytes bytes = Inr (t @ '' '' @ unit_suffixes ! unit_steps (unat bytes)))) \<and>
   formatBytes 0 = Inr ''0 B'' \<and>
   formatBytes 1023 = Inr ''1023 B'' \<and>
   formatBytes 1024 = Inr ''1.0 KiB'' \<and>
   formatBytes 1048576 = Inr ''1.0 MiB'' \<and>
   formatBytes 1536 = Inr ''1.5 KiB''"
proof -
  have "unit_steps (unat bytes) < length unit_suffixes"
    using unit_steps_u64 [of bytes] by (simp add: unit_suffixes_def)
  moreover have "formatBytes 0 = Inr ''0 B''" "formatBytes 1023 = Inr ''1023 B''"
    "formatBytes 1024 = Inr ''1.0 KiB''" "formatBytes 1048576 = Inr ''1.0 MiB''"
    "formatBytes 1536 = Inr ''1.5 KiB''"
    by (simp_all add: formatBytes_refines_spec formatBytes_spec_examples)
  moreover have "\<exists>t. one_decimal t \<and>
      formatBytes bytes = Inr (t @ '' '' @ unit_suffixes ! unit_steps (unat bytes))"
    if "1024 \<le> bytes"
  proof -
    from that have "1024 \<le> unat bytes"
      by (simp add: word_le_nat_alt)
    moreover have "unat bytes < 2 ^ 64"
      using unsigned_less [of bytes, where ?'a = nat] by simp
    ultimately show ?thesis
      using formatBytes_spec_one_decimal [of "unat bytes"]
      by (simp add: formatBytes_refines_spec)
  qed
  ultimately show ?thesis
    by (simp add: formatBytes_refines_spec)
qed

theorem formatBytes_binary_units_witness:
  "(1024 :: 64 word) \<le> 1536 \<and>
   (\<exists>t. one_decimal t \<and> formatBytes 1536 = Inr (t @ '' KiB''))"
proof -
  have "(1024 :: 64 word) \<le> 1536"
    by simp
  then have "\<exists>t. one_decimal t \<and>
      formatBytes 1536 = Inr (t @ '' '' @ unit_suffixes ! unit_steps (unat (1536 :: 64 word)))"
    using formatBytes_binary_units [of 1536] by blast
  then show ?thesis
    by (simp add: unit_steps_examples unit_suffixes_def)
qed

text \<open>
  C10. \<^verbatim>\<open>formatBytes\<close> is total and its index is in bounds. The loop is a total function
  (its termination is proved with its definition); for every \<^verbatim>\<open>uint64\<close> it leaves an
  exponent of at most 5, so that indexing \<^verbatim>\<open>KMGTPE\<close> does not panic and a text is
  returned; an input below 1024 gives its decimal digits followed by \<^verbatim>\<open> B\<close>.
\<close>

theorem formatBytes_total_index_in_bounds:
  "(\<exists>s. formatBytes bytes = Inr s) \<and>
   snd (formatBytes_loop (bytes div 1024) 1024 0) \<le> 5 \<and>
   snd (formatBytes_loop (bytes div 1024) 1024 0) < length ''KMGTPE'' \<and>
   (bytes < 1024 \<longrightarrow> formatBytes bytes = Inr (sprintf_d (unat bytes) @ '' B''))"
proof -
  have "snd (formatBytes_loop (bytes div 1024) 1024 0) = unit_steps (unat bytes div 1024)"
    by (simp add: formatBytes_loop_steps unat_div)
  then have "snd (formatBytes_loop (bytes div 1024) 1024 0) \<le> 5"
    using unit_steps_u64_div [of bytes] by simp
  moreover have "\<exists>s. formatBytes bytes = Inr s"
    by (simp add: formatBytes_refines_spec)
  ultimately show ?thesis
    by (simp add: formatBytes_small)
qed

theorem formatBytes_total_index_in_bounds_witness:
  "(1023 :: 64 word) < 1024 \<and> formatBytes 1023 = Inr ''1023 B'' \<and>
   snd (formatBytes_loop (18446744073709551615 div 1024) 1024 0) = 5"
proof -
  have "(1023 :: 64 word) < 1024"
    by simp
  moreover from this have "formatBytes 1023 = Inr (sprintf_d (unat (1023 :: 64 word)) @ '' B'')"
    using formatBytes_total_index_in_bounds [of 1023] by blast
  moreover have "snd (formatBytes_loop (18446744073709551615 div 1024) 1024 0) = 5"
    by (simp add: formatBytes_loop.simps)
  ultimately show ?thesis
    by (simp add: sprintf_d_eval)
qed

section \<open>Properties of the render functions\<close>

subsection \<open>The inputs table\<close>

lemma remove_rows_loop_every_second:
  "row \<le> length t \<Longrightarrow> remove_rows_loop row t = take row t @ every_second (drop row t)"
proof (induction row t rule: remove_rows_loop.induct)
  case (1 row t)
  show ?case
  proof (cases "row < length t")
    case False
    then have "remove_rows_loop row t = t"
      by (simp add: remove_rows_loop.simps [of row] GetRowCount_def)
    with False "1.prems" show ?thesis
      by simp
  next
    case True
    then obtain x rest where d: "drop row t = x # rest"
      by (cases "drop row t") simp_all
    then have rest: "rest = drop (Suc row) t"
      by (metis drop_Suc tl_drop list.sel(3))
    have rm: "RemoveRow row t = take row t @ rest"
      using True by (simp add: RemoveRow_def rest)
    show ?thesis
    proof (cases rest)
      case Nil
      then have "length t = Suc row"
        using rest True by simp
      then show ?thesis
        using True d Nil rm
        by (simp add: remove_rows_loop.simps [of row] remove_rows_loop.simps [of "Suc row"]
            GetRowCount_def)
    next
      case (Cons y zs)
      have len: "Suc row \<le> length (RemoveRow row t)"
        using True rm Cons by simp
      have "remove_rows_loop row t = remove_rows_loop (Suc row) (RemoveRow row t)"
        using True by (simp add: remove_rows_loop.simps [of row] GetRowCount_def)
      also have "\<dots> = take (Suc row) (RemoveRow row t) @ every_second (drop (Suc row) (RemoveRow row t))"
        using "1.IH" True len by (simp add: GetRowCount_def)
      also have "take (Suc row) (RemoveRow row t) = take row t @ [y]"
        using True by (simp add: rm Cons min_def)
      also have "drop (Suc row) (RemoveRow row t) = zs"
        using True by (simp add: rm Cons min_def)
      finally show ?thesis
        by (simp add: d Cons)
    qed
  qed
qed

lemma length_every_second: "length (every_second xs) = length xs div 2"
  by (induction xs rule: every_second.induct) simp_all

lemma remove_rows_loop_leaves_half:
  "remove_rows_loop 1 (header # rows) = header # every_second rows \<and>
   length (remove_rows_loop 1 (header # rows)) = 1 + length rows div 2"
  using remove_rows_loop_every_second [of 1 "header # rows"]
  by (simp add: length_every_second)

lemmas table_eval =
  SetCell_def NewTableCell_def SetTextColor_def SetAlign_def empty_cell_def header_cell_def
  input_row_def Let_def

lemma createInputsTable_texts:
  "createInputsTable = [map header_cell [''Type'', ''Active'', ''Events'', ''Throughput'', ''Files'']]"
  by (simp add: createInputsTable_def SetCell_def Let_def empty_cell_def)

lemma updateInputs_main:
  "getPrimitiveFromPage pm ''main'' = Some ws \<Longrightarrow>
   updateInputs (Some s) pm ''main'' =
     Some (ws\<lparr>inputsTable := set_input_rows 0 (Filebeat_Inputs s) (remove_rows_loop 1 (inputsTable ws))\<rparr>)"
  by (simp add: updateInputs_def getPrimitiveFromPage_def Let_def)

lemma sprintf_f_2_zero: "sprintf_f 2 zero_f64 = ''0.00''"
  by (simp add: zero_f64_def sprintf_f_Finite) (simp add: round_half_even_div_def sprintf_d_eval)

lemma sprintf_f_2_one_and_half: "sprintf_f 2 (Finite False 6755399441055744 (- 52)) = ''1.50''"
  by (simp add: sprintf_f_Finite) (simp add: round_half_even_div_def sprintf_d_eval)

lemma list5:
  assumes "length r = 5"
  obtains a b c d e where "r = [a, b, c, d, e]"
proof -
  from assms obtain a r1 where "r = a # r1" "length r1 = 4"
    by (cases r) simp_all
  moreover then obtain b r2 where "r1 = b # r2" "length r2 = 3"
    by (cases r1) simp_all
  moreover then obtain c r3 where "r2 = c # r3" "length r3 = 2"
    by (cases r2) simp_all
  moreover then obtain d r4 where "r3 = d # r4" "length r4 = 1"
    by (cases r3) simp_all
  moreover then obtain e where "r4 = [e]"
    by (cases r4) simp_all
  ultimately show ?thesis
    using that by simp
qed

lemma length_input_cells: "length (input_cells input) = 5"
  by (simp add: input_cells_def input_texts_def)

lemma input_cells_texts: "map Text (input_cells input) = input_texts input"
  by (simp add: input_cells_def input_texts_def SetTextColor_def NewTableCell_def)

lemma input_row_append:
  "length t = Suc i \<Longrightarrow> input_row i input t = t @ [input_cells input]"
  by (simp add: table_eval nth_append list_update_append input_texts_def input_cells_def)

lemma input_row_overwrite:
  assumes "Suc i < length t" and "length (t ! Suc i) = 5"
  shows "input_row i input t = t[Suc i := input_cells input]"
proof -
  from assms(2) obtain a b c d e where r: "t ! Suc i = [a, b, c, d, e]"
    by (rule list5)
  show ?thesis
    using assms(1) by (simp add: table_eval r input_texts_def input_cells_def)
qed

lemma drop_all_5:
  assumes "\<forall>r \<in> set (drop n t). length r = 5"
  shows "\<forall>r \<in> set (drop (Suc n) (t[n := x])). length r = 5"
proof
  fix r
  assume "r \<in> set (drop (Suc n) (t[n := x]))"
  then have "r \<in> set (drop (Suc n) t)"
    by simp
  then have "r \<in> set (drop n t)"
    using set_drop_subset_set_drop [of n "Suc n" t] by auto
  with assms show "length r = 5"
    by blast
qed

lemma set_input_rows_shape:
  assumes "Suc i \<le> length t" and "\<forall>r \<in> set (drop (Suc i) t). length r = 5"
  shows "set_input_rows i inputs t =
     take (Suc i) t @ map input_cells inputs @ drop (Suc i + length inputs) t"
  using assms
proof (induction inputs arbitrary: i t)
  case Nil
  then show ?case
    by simp
next
  case (Cons input inputs)
  show ?case
  proof (cases "Suc i < length t")
    case True
    then have "t ! Suc i \<in> set (drop (Suc i) t)"
      using in_set_conv_nth [of "t ! Suc i" "drop (Suc i) t"]
      by (auto intro: exI [of _ 0])
    with Cons.prems(2) have "length (t ! Suc i) = 5"
      by blast
    with True have r: "input_row i input t = t[Suc i := input_cells input]"
      by (rule input_row_overwrite)
    let ?t = "t[Suc i := input_cells input]"
    have 1: "Suc (Suc i) \<le> length ?t"
      using True by simp
    have 2: "\<forall>r \<in> set (drop (Suc (Suc i)) ?t). length r = 5"
      using Cons.prems(2) by (rule drop_all_5)
    have 3: "take (Suc (Suc i)) ?t = take (Suc i) t @ [input_cells input]"
      using True by (simp add: take_Suc_conv_app_nth [of "Suc i"])
    have 4: "drop (Suc (Suc i) + length inputs) ?t = drop (Suc (Suc i) + length inputs) t"
      by simp
    have "set_input_rows (Suc i) inputs ?t =
        take (Suc (Suc i)) ?t @ map input_cells inputs @ drop (Suc (Suc i) + length inputs) ?t"
      using 1 2 by (rule Cons.IH)
    then show ?thesis
      unfolding 3 4 by (simp add: r)
  next
    case False
    with Cons.prems(1) have len: "length t = Suc i"
      by simp
    note a = input_row_append [OF len, of input]
    let ?t = "t @ [input_cells input]"
    have 1: "Suc (Suc i) \<le> length ?t"
      using len by simp
    have 2: "\<forall>r \<in> set (drop (Suc (Suc i)) ?t). length r = 5"
      using len by simp
    have "set_input_rows (Suc i) inputs ?t =
        take (Suc (Suc i)) ?t @ map input_cells inputs @ drop (Suc (Suc i) + length inputs) ?t"
      using 1 2 by (rule Cons.IH)
    then show ?thesis
      using len by (simp add: a)
  qed
qed

lemma set_every_second: "set (every_second xs) \<subseteq> set xs"
  by (induction xs rule: every_second.induct) auto

lemma updateInputs_table:
  assumes "getPrimitiveFromPage pm ''main'' = Some ws" and "inputsTable ws = header # rows"
    and "\<forall>r \<in> set rows. length r = 5"
  shows "map_option inputsTable (updateInputs (Some s) pm ''main'') =
     Some (header # map input_cells (Filebeat_Inputs s) @
           drop (length (Filebeat_Inputs s)) (every_second rows))"
proof -
  have c: "remove_rows_loop (Suc 0) (inputsTable ws) = header # every_second rows"
    using remove_rows_loop_leaves_half [of header rows] by (simp add: assms(2))
  have "\<forall>r \<in> set (drop (Suc 0) (header # every_second rows)). length r = 5"
    using assms(3) set_every_second [of rows] by auto
  then have "set_input_rows 0 (Filebeat_Inputs s) (header # every_second rows) =
      take (Suc 0) (header # every_second rows) @ map input_cells (Filebeat_Inputs s) @
      drop (Suc 0 + length (Filebeat_Inputs s)) (header # every_second rows)"
    by (intro set_input_rows_shape) simp
  then show ?thesis
    by (simp add: updateInputs_main [OF assms(1)] c)
qed

lemma map_every_second: "map f (every_second xs) = every_second (map f xs)"
  by (induction xs rule: every_second.induct) simp_all

lemma updateInputs_rendered:
  assumes "getPrimitiveFromPage pm ''main'' = Some ws" and "inputsTable ws = header # rows"
    and "\<forall>r \<in> set rows. length r = 5"
  shows "rendered_inputs (updateInputs (Some s) pm) =
     Some (map Text header # map input_texts (Filebeat_Inputs s) @
           drop (length (Filebeat_Inputs s)) (every_second (map (map Text) rows)))"
proof -
  have "map (map Text) (map input_cells (Filebeat_Inputs s)) = map input_texts (Filebeat_Inputs s)"
    by (simp add: input_cells_texts comp_def)
  moreover have "map (map Text) (drop (length (Filebeat_Inputs s)) (every_second rows)) =
      drop (length (Filebeat_Inputs s)) (every_second (map (map Text) rows))"
    by (simp add: map_every_second flip: drop_map)
  ultimately show ?thesis
    using updateInputs_table [OF assms, of s]
    by (auto simp: rendered_inputs_def)
qed

lemma initUI_main:
  "getPrimitiveFromPage initUI ''main'' =
     Some \<lparr>systemPanel = createSystemPanel, queuePanel = createQueuePanel,
        harvesterChart = createHarvesterChart, inputsTable = createInputsTable,
        modulesWidget = createModulesWidget\<rparr>"
  by (simp add: initUI_def getPrimitiveFromPage_def)

text \<open>
  C7, the code at the failing input. A render of six inputs followed by a render of two
  inputs leaves three data rows under the header: the row-removing loop skips every
  second row, so rows of the earlier render stay, and the last of them is not
  overwritten by the two new rows.
\<close>

theorem updateInputs_keeps_stale_row:
  "rendered_inputs (updateInputs (Some two_inputs) (updateInputs (Some six_inputs) initUI)) =
     Some [[''Type'', ''Active'', ''Events'', ''Throughput'', ''Files''],
           [''log'', ''true'', ''12'', ''1.50'', ''3''],
           [''udp'', ''false'', ''0'', ''0.00'', ''0''],
           [''f'', ''false'', ''0'', ''0.00'', ''0'']]"
proof -
  define hdr where "hdr = map header_cell [''Type'', ''Active'', ''Events'', ''Throughput'', ''Files'']"
  define pm where "pm = updateInputs (Some six_inputs) initUI"
  have "map_option inputsTable (pm ''main'') =
      Some (hdr # map input_cells (Filebeat_Inputs six_inputs) @
            drop (length (Filebeat_Inputs six_inputs)) (every_second []))"
    unfolding pm_def
    by (rule updateInputs_table [OF initUI_main]) (simp_all add: createInputsTable_texts hdr_def)
  then obtain ws where ws: "getPrimitiveFromPage pm ''main'' = Some ws"
    and t: "inputsTable ws = hdr # map input_cells (Filebeat_Inputs six_inputs)"
    by (auto simp: getPrimitiveFromPage_def)
  have "rendered_inputs (updateInputs (Some two_inputs) pm) =
      Some (map Text hdr # map input_texts (Filebeat_Inputs two_inputs) @
            drop (length (Filebeat_Inputs two_inputs))
              (every_second (map (map Text) (map input_cells (Filebeat_Inputs six_inputs)))))"
    using ws t by (rule updateInputs_rendered) (simp add: length_input_cells)
  then show ?thesis
    unfolding pm_def [symmetric]
    by (simp add: hdr_def header_cell_def NewTableCell_def SetTextColor_def SetAlign_def
        two_inputs_def six_inputs_def zero_stats_def zero_Input_def input_texts_def
        input_cells_def sprintf_t_def sprintf_d_eval sprintf_f_2_zero sprintf_f_2_one_and_half)
qed

subsection \<open>The system panel\<close>

lemma createSystemPanel_shape: "map length createSystemPanel = [2, 2, 2, 2]"
  by (simp add: createSystemPanel_def addMetricRow_def SetCell_def Let_def nth_append
      list_update_append)

lemma rows_4x2:
  assumes "map length t = [2, 2, 2, 2 :: nat]"
  obtains a0 b0 a1 b1 a2 b2 a3 b3 where "t = [[a0, b0], [a1, b1], [a2, b2], [a3, b3]]"
proof -
  from assms obtain r0 r1 r2 r3 where t: "t = [r0, r1, r2, r3]"
    and l: "length r0 = 2" "length r1 = 2" "length r2 = 2" "length r3 = 2"
    by (auto simp: map_eq_Cons_conv)
  from l(1) obtain a0 b0 where "r0 = [a0, b0]"
    by (auto simp: length_Suc_conv numeral_2_eq_2)
  moreover from l(2) obtain a1 b1 where "r1 = [a1, b1]"
    by (auto simp: length_Suc_conv numeral_2_eq_2)
  moreover from l(3) obtain a2 b2 where "r2 = [a2, b2]"
    by (auto simp: length_Suc_conv numeral_2_eq_2)
  moreover from l(4) obtain a3 b3 where "r3 = [a3, b3]"
    by (auto simp: length_Suc_conv numeral_2_eq_2)
  ultimately show ?thesis
    using that t by blast
qed

lemma updateSystemMetrics_rendered:
  assumes "getPrimitiveFromPage pm ''main'' = Some ws"
    and "map length (systemPanel ws) = [2, 2, 2, 2]"
  shows "rendered_cpu (updateSystemMetrics (Some s) pm) = Some (sprintf_f 1 (cpuPercent s) @ ''%'')"
    and "rendered_uptime (updateSystemMetrics (Some s) pm) =
           Some (Duration_String (Duration_Truncate (uptime s) Minute))"
proof -
  from assms(2) obtain a0 b0 a1 b1 a2 b2 a3 b3
    where t: "systemPanel ws = [[a0, b0], [a1, b1], [a2, b2], [a3, b3]]"
    by (rule rows_4x2)
  show "rendered_cpu (updateSystemMetrics (Some s) pm) = Some (sprintf_f 1 (cpuPercent s) @ ''%'')"
    using assms(1)
    by (simp add: rendered_cpu_def updateSystemMetrics_def t GetCell_SetText_def cell_text_def)
  show "rendered_uptime (updateSystemMetrics (Some s) pm) =
           Some (Duration_String (Duration_Truncate (uptime s) Minute))"
    using assms(1)
    by (simp add: rendered_uptime_def updateSystemMetrics_def t GetCell_SetText_def cell_text_def)
qed

lemmas first_render = updateSystemMetrics_rendered [OF initUI_main, simplified initUI_main
    Widgets.simps createSystemPanel_shape, OF refl]

lemma f64_of_nat_500: "f64_of_nat 500 = Finite False 8796093022208000 (- 44)"
  by (simp add: f64_of_nat_def round_f64_eval)

lemma f64_of_nat_10000: "f64_of_nat 10000 = Finite False 5497558138880000 (- 39)"
  by (simp add: f64_of_nat_def round_f64_eval)

lemma f64_500_div_10000:
  "f64_div (Finite False 8796093022208000 (- 44)) (Finite False 5497558138880000 (- 39)) =
     Finite False 7205759403792794 (- 57)"
  by (simp add: f64_div_Finite) (simp add: round_f64_eval)

lemma f64_005_mul_100:
  "f64_mul (Finite False 7205759403792794 (- 57)) (Finite False 7036874417766400 (- 46)) =
     Finite False 5629499534213120 (- 50)"
  by (simp add: f64_mul_Finite) (simp add: round_f64_eval)

lemma sprintf_f_1_five: "sprintf_f 1 (Finite False 5629499534213120 (- 50)) = ''5.0''"
  by (simp add: sprintf_f_Finite) (simp add: round_half_even_div_def sprintf_d_eval)

lemma cpuPercent_example:
  "cpuPercent (zero_stats\<lparr>Beat_CPU_Total_Time_MS := 500, Beat_Info_Uptime_MS := 10000\<rparr>) =
     f64_of_nat 5 \<and>
   rendered_cpu (updateSystemMetrics
     (Some (zero_stats\<lparr>Beat_CPU_Total_Time_MS := 500, Beat_Info_Uptime_MS := 10000\<rparr>)) initUI) =
     Some ''5.0%''"
  by (simp add: first_render cpuPercent_def zero_stats_def f64_of_u64_def f64_of_nat_500
      f64_of_nat_10000 f64_of_nat_100 f64_500_div_10000 f64_005_mul_100 f64_of_nat_5
      sprintf_f_1_five [unfolded One_nat_def])

lemma cpuPercent_finite_iff:
  "(\<exists>m e. cpuPercent s = Finite False m e) \<longleftrightarrow> Beat_Info_Uptime_MS s \<noteq> 0"
proof
  assume "Beat_Info_Uptime_MS s \<noteq> 0"
  from percent_zero_or_normal [OF this, of "Beat_CPU_Total_Time_MS s"]
  show "\<exists>m e. cpuPercent s = Finite False m e"
    unfolding cpuPercent_def f64_normal_def zero_f64_def by blast
next
  assume fin: "\<exists>m e. cpuPercent s = Finite False m e"
  show "Beat_Info_Uptime_MS s \<noteq> 0"
  proof
    assume z: "Beat_Info_Uptime_MS s = 0"
    show False
    proof (cases "Beat_CPU_Total_Time_MS s = 0")
      case True
      then have "cpuPercent s = NaN"
        by (simp add: cpuPercent_def z f64_of_u64_zero zero_f64_def f64_div_def f64_mul_def)
      with fin show False
        by simp
    next
      case False
      from f64_of_u64_normal [OF False] obtain m e
        where "f64_of_u64 (Beat_CPU_Total_Time_MS s) = Finite False m e" and "2 ^ 52 \<le> m"
        unfolding f64_normal_def by blast
      moreover then have "m \<noteq> 0"
        using pow2_le_pos [of 52 m] by simp
      ultimately have "cpuPercent s = Infinity False"
        by (simp add: cpuPercent_def z f64_of_u64_zero zero_f64_def f64_div_def f64_mul_def
            f64_of_nat_100)
      with fin show False
        by simp
    qed
  qed
qed

text \<open>
  C2, the code at the failing inputs. The division by the uptime is not guarded. For the
  snapshot the payload \<^verbatim>\<open>{}\<close> decodes to, total time and uptime both 0, the CPU percentage
  is NaN and the cell shows \<^verbatim>\<open>NaN%\<close>; with a total time of 500 ms and an uptime of 0 it is
  the positive infinity and the cell shows \<^verbatim>\<open>+Inf%\<close>.
\<close>

theorem cpuPercent_zero_uptime_unguarded:
  "cpuPercent zero_stats = NaN \<and>
   rendered_cpu (updateSystemMetrics (Some zero_stats) initUI) = Some ''NaN%'' \<and>
   cpuPercent (zero_stats\<lparr>Beat_CPU_Total_Time_MS := 500\<rparr>) = Infinity False \<and>
   rendered_cpu (updateSystemMetrics (Some (zero_stats\<lparr>Beat_CPU_Total_Time_MS := 500\<rparr>)) initUI) =
     Some ''+Inf%''"
proof -
  have nan: "cpuPercent zero_stats = NaN"
    by (simp add: cpuPercent_def zero_stats_def f64_of_u64_def f64_of_nat_0 zero_f64_def
        f64_div_def f64_mul_def)
  have inf: "cpuPercent (zero_stats\<lparr>Beat_CPU_Total_Time_MS := 500\<rparr>) = Infinity False"
    by (simp add: cpuPercent_def zero_stats_def f64_of_u64_def f64_of_nat_0 zero_f64_def
        f64_of_nat_500 f64_of_nat_100 f64_div_def f64_mul_def)
  show ?thesis
    by (simp add: first_render nan inf sprintf_f_def)
qed

lemma fmtFrac_loop_zeros:
  "v mod 10 ^ k = 0 \<Longrightarrow> fmtFrac_loop k v False buf = (buf, v div 10 ^ k, False)"
proof (induction k arbitrary: v)
  case 0
  then show ?case by simp
next
  case (Suc k)
  from Suc.prems have "10 * 10 ^ k dvd v"
    by (simp add: mod_eq_0_iff_dvd)
  then obtain q where q: "v = 10 * (10 ^ k * q)"
    by (auto simp: dvd_def mult.assoc)
  then have "v mod 10 = 0" and "(v div 10) mod 10 ^ k = 0" and "v div 10 div 10 ^ k = v div 10 ^ Suc k"
    by (simp_all add: div_mult2_eq)
  then show ?case
    using Suc.IH [of "v div 10"] by (simp add: Let_def)
qed

lemma fmtFrac_whole_seconds:
  "v mod 1000000000 = 0 \<Longrightarrow> fmtFrac buf v 9 = (buf, v div 1000000000)"
  using fmtFrac_loop_zeros [of v 9 buf] by (simp add: fmtFrac_def)

lemma u64_of_small_nat:
  assumes "n < 2 ^ 63"
  shows "sint (word_of_nat n :: 64 word) = int n" and "unat (word_of_nat n :: 64 word) = n"
proof -
  have "(word_of_nat n :: 64 word) = word_of_int (int n)"
    by simp
  then have "sint (word_of_nat n :: 64 word) = (int n + 2 ^ 63) mod 2 ^ 64 - 2 ^ 63"
    by (simp only: int_word_sint) simp
  also have "(int n + 2 ^ 63) mod 2 ^ 64 = int n + 2 ^ 63"
    using assms by (intro mod_pos_pos_trivial) simp_all
  finally show "sint (word_of_nat n :: 64 word) = int n"
    by simp
  have "n < 2 ^ 64"
    using assms by simp
  then show "unat (word_of_nat n :: 64 word) = n"
    by (simp add: unat_of_nat)
qed

lemma Duration_String_minutes:
  assumes "mins * 60000000000 < 2 ^ 63"
  shows "Duration_String (word_of_nat (mins * 60000000000)) = minutes_text mins"
proof -
  let ?T = "mins * 60000000000"
  note w = u64_of_small_nat [OF assms]
  have neg: "\<not> sint (word_of_nat ?T :: 64 word) < 0"
    using w(1) by simp
  show ?thesis
  proof (cases "mins = 0")
    case True
    then show ?thesis
      by (simp add: Duration_String_def minutes_text_def Second_def)
  next
    case False
    then have big: "\<not> ?T < 1000000000"
      by simp
    have frac: "fmtFrac ''s'' ?T 9 = (''s'', mins * 60)"
      using fmtFrac_whole_seconds [of ?T "''s''"] by simp
    have z: "sprintf_d 0 = ''0''"
      by (simp add: sprintf_d_eval)
    show ?thesis
      using False big neg
      by (simp add: Duration_String_def Let_def w Second_def frac fmtInt_def z
          minutes_text_def del: of_nat_mult of_nat_numeral)
  qed
qed

lemma trunc_rem_nat: "trunc_rem (int a) (int b) = int (a mod b)"
  by (cases "a = 0") (simp_all add: trunc_rem_def zmod_int)

lemma uptime_truncated:
  assumes "unat ms * 1000000 < 2 ^ 63"
  shows "Duration_Truncate (ms * Millisecond) Minute =
     word_of_nat (unat ms div 60000 * 60000000000)"
proof -
  let ?U = "unat ms * 1000000"
  have d: "ms * Millisecond = word_of_nat ?U"
    by (simp add: Millisecond_def)
  note w = u64_of_small_nat [OF assms]
  have r: "trunc_rem (int ?U) 60000000000 = int (?U mod 60000000000)"
    using trunc_rem_nat [of ?U 60000000000] by simp
  have "?U - ?U mod 60000000000 = ?U div 60000000000 * 60000000000"
    by (simp add: minus_mod_eq_div_mult)
  moreover have "?U div 60000000000 = unat ms div 60000"
  proof -
    have "unat ms * 1000000 div (60000 * 1000000) = unat ms div 60000"
      by (rule div_mult_mult2) simp
    then show ?thesis
      by simp
  qed
  ultimately have t: "?U - ?U mod 60000000000 = unat ms div 60000 * 60000000000"
    by simp
  have "Duration_Truncate (word_of_nat ?U) Minute =
      (word_of_nat ?U :: 64 word) - word_of_nat (?U mod 60000000000)"
    by (simp add: Duration_Truncate_def Minute_def w(1) r del: of_nat_mult of_nat_numeral)
  also have "\<dots> = word_of_nat (?U - ?U mod 60000000000)"
    by (simp add: of_nat_diff del: of_nat_mult of_nat_numeral)
  finally show ?thesis
    by (simp only: d t)
qed

lemma minutes_text_125: "minutes_text 125 = ''2h5m0s''"
  by (simp add: minutes_text_def sprintf_d_eval)

lemma minutes_text_60: "minutes_text 60 = ''1h0m0s''"
  by (simp add: minutes_text_def sprintf_d_eval)

text \<open>
  The uptime cell for every snapshot whose nanosecond count fits an \<^verbatim>\<open>int64\<close>: for an
  uptime of \<open>ms\<close> milliseconds with \<open>ms * 10\<^sup>6 < 2\<^sup>6\<^sup>3\<close> and \<open>m = ms div 60000\<close>, the cell
  shows the uptime truncated to whole minutes in the format of \<^verbatim>\<open>time.Duration\<close>, which
  always ends in a seconds part: \<^verbatim>\<open>0s\<close> when \<open>m = 0\<close>, and otherwise the hours followed by
  \<^verbatim>\<open>h\<close> when \<open>m\<close> is 60 or more, then \<open>m mod 60\<close> followed by \<^verbatim>\<open>m0s\<close>.
\<close>

lemma uptime_rendered_in_whole_minutes:
  assumes "getPrimitiveFromPage pm ''main'' = Some ws"
    and "map length (systemPanel ws) = [2, 2, 2, 2]"
    and "unat (Beat_Info_Uptime_MS s) * 1000000 < 2 ^ 63"
  shows "rendered_uptime (updateSystemMetrics (Some s) pm) =
     Some (minutes_text (unat (Beat_Info_Uptime_MS s) div 60000))"
proof -
  have "unat (Beat_Info_Uptime_MS s) div 60000 * 60000000000 \<le>
      unat (Beat_Info_Uptime_MS s) * 1000000"
  proof -
    have "unat (Beat_Info_Uptime_MS s) div 60000 * 60000 \<le> unat (Beat_Info_Uptime_MS s)"
      by simp
    then have "unat (Beat_Info_Uptime_MS s) div 60000 * 60000 * 1000000 \<le>
        unat (Beat_Info_Uptime_MS s) * 1000000"
      by (rule mult_le_mono1)
    then show ?thesis
      by (simp add: mult.assoc)
  qed
  then have "unat (Beat_Info_Uptime_MS s) div 60000 * 60000000000 < 2 ^ 63"
    using assms(3) by (rule le_less_trans)
  then have "Duration_String (word_of_nat (unat (Beat_Info_Uptime_MS s) div 60000 * 60000000000)) =
      minutes_text (unat (Beat_Info_Uptime_MS s) div 60000)"
    by (rule Duration_String_minutes)
  then show ?thesis
    by (simp only: updateSystemMetrics_rendered(2) [OF assms(1,2)] uptime_def
        uptime_truncated [OF assms(3)])
qed

lemma uptime_rendered_in_whole_minutes_example:
  "getPrimitiveFromPage initUI ''main'' \<noteq> None \<and>
   map length createSystemPanel = [2, 2, 2, 2] \<and>
   unat (3659999 :: 64 word) * 1000000 < 2 ^ 63 \<and>
   rendered_uptime
     (updateSystemMetrics (Some (zero_stats\<lparr>Beat_Info_Uptime_MS := 3659999\<rparr>)) initUI) =
     Some ''1h0m0s''"
proof -
  have 1: "map length (systemPanel \<lparr>systemPanel = createSystemPanel,
      queuePanel = createQueuePanel, harvesterChart = createHarvesterChart,
      inputsTable = createInputsTable, modulesWidget = createModulesWidget\<rparr>) = [2, 2, 2, 2]"
    by (simp add: createSystemPanel_shape)
  have 2: "unat (Beat_Info_Uptime_MS (zero_stats\<lparr>Beat_Info_Uptime_MS := 3659999\<rparr>)) * 1000000
      < 2 ^ 63"
    by simp
  have "rendered_uptime
      (updateSystemMetrics (Some (zero_stats\<lparr>Beat_Info_Uptime_MS := 3659999\<rparr>)) initUI) =
      Some (minutes_text (unat (3659999 :: 64 word) div 60000))"
    using uptime_rendered_in_whole_minutes [OF initUI_main 1 2] by simp
  then show ?thesis
    by (simp add: minutes_text_60 createSystemPanel_shape initUI_main)
qed

text \<open>
  C8, the code at the failing input. The uptime cell is created with the text \<^verbatim>\<open>0h 0m\<close>,
  hours and minutes and no seconds, and \<^verbatim>\<open>updateSystemMetrics\<close> truncates the uptime to
  the minute; but it prints the duration with \<^verbatim>\<open>%v\<close>, and the seconds are shown: an uptime
  of 125 minutes (7500000 ms) is rendered \<^verbatim>\<open>2h5m0s\<close> and not \<^verbatim>\<open>2h5m\<close>, and an uptime of
  59999 ms, below one minute, is rendered \<^verbatim>\<open>0s\<close>.
\<close>

theorem uptime_125_minutes_shows_seconds:
  "rendered_uptime initUI = Some ''0h 0m'' \<and>
   rendered_uptime
     (updateSystemMetrics (Some (zero_stats\<lparr>Beat_Info_Uptime_MS := 7500000\<rparr>)) initUI) =
     Some ''2h5m0s'' \<and>
   rendered_uptime
     (updateSystemMetrics (Some (zero_stats\<lparr>Beat_Info_Uptime_MS := 7500000\<rparr>)) initUI) \<noteq>
     Some ''2h5m'' \<and>
   rendered_uptime
     (updateSystemMetrics (Some (zero_stats\<lparr>Beat_Info_Uptime_MS := 59999\<rparr>)) initUI) =
     Some ''0s''"
proof -
  have "rendered_uptime initUI = Some ''0h 0m''"
    by (simp add: rendered_uptime_def initUI_def createSystemPanel_def addMetricRow_def
        table_eval cell_text_def)
  moreover have "Duration_Truncate (7500000 * Millisecond) Minute =
      word_of_nat (unat (7500000 :: 64 word) div 60000 * 60000000000)"
    by (rule uptime_truncated) simp
  moreover have "Duration_String (word_of_nat (125 * 60000000000)) = minutes_text 125"
    by (rule Duration_String_minutes) simp
  moreover have "Duration_Truncate (59999 * Millisecond) Minute =
      word_of_nat (unat (59999 :: 64 word) div 60000 * 60000000000)"
    by (rule uptime_truncated) simp
  moreover have "Duration_String (word_of_nat (0 * 60000000000)) = minutes_text 0"
    by (rule Duration_String_minutes) simp
  moreover have "minutes_text 0 = ''0s''"
    by (simp add: minutes_text_def)
  ultimately show ?thesis
    by (simp add: first_render(2) uptime_def minutes_text_125)
qed

subsection \<open>The queue bar\<close>























end
